theory Spec2Isabelle
  imports Complex_Main
begin

section \<open>The type float64\<close>

text \<open>
  Go's \<^verbatim>\<open>float64\<close> is IEEE 754 binary64. A value is not-a-number, one of the two
  infinities, or a finite number, given as the real number it denotes. The two zeros
  are one value: no operation of the program tells them apart. The arithmetic rounds
  the exact result to the nearest binary64 number, ties to even, with the subnormal
  numbers, and gives an infinity beyond the largest finite number.
\<close>

subsection \<open>Rounding to nearest, ties to even\<close>

text \<open>
  \<open>expo x\<close> is the binary exponent of \<open>x\<close>, \<open>rne z\<close> the integer nearest to \<open>z\<close> (the
  even one of two), \<open>ulp_exp x\<close> the exponent of the unit in the last place of the 53-bit
  significand at \<open>x\<close> (not below \<open>-1074\<close>, the exponent of the subnormal numbers), and
  \<open>round64r x\<close> the multiple of that unit nearest to \<open>x\<close>, before the overflow check.
\<close>

definition expo :: "real \<Rightarrow> int" where
  "expo x = \<lfloor>log 2 \<bar>x\<bar>\<rfloor>"

definition rne :: "real \<Rightarrow> int" where
  "rne z =
     (let f = \<lfloor>z\<rfloor>; r = z - of_int f in
      if r < 1 / 2 then f
      else if 1 / 2 < r then f + 1
      else if even f then f else f + 1)"

definition ulp_exp :: "real \<Rightarrow> int" where
  "ulp_exp x = max (expo x) (- 1022) - 52"

definition round64r :: "real \<Rightarrow> real" where
  "round64r x = (if x = 0 then 0 else of_int (rne (x / 2 powi ulp_exp x)) * 2 powi ulp_exp x)"


subsection \<open>Values, comparisons and arithmetic\<close>

text \<open>
  The comparisons are those of IEEE 754: every comparison with not-a-number is false.
  \<open>Fin x\<close> is also a value of the type when \<open>x\<close> is not a binary64 number; the
  results of the operations are always binary64 numbers (lemma \<open>round64_Fin_fixed\<close>).
\<close>

datatype f64 = NaN | PInf | NInf | Fin real

definition overflow64 :: real where
  "overflow64 = 2 ^ 1024"

definition round64 :: "real \<Rightarrow> f64" where
  "round64 x =
     (let r = round64r x in
      if overflow64 \<le> r then PInf else if r \<le> - overflow64 then NInf else Fin r)"

fun f64_less :: "f64 \<Rightarrow> f64 \<Rightarrow> bool" where
  "f64_less (Fin a) (Fin b) = (a < b)"
| "f64_less (Fin a) PInf = True"
| "f64_less NInf (Fin b) = True"
| "f64_less NInf PInf = True"
| "f64_less _ _ = False"

fun f64_less_eq :: "f64 \<Rightarrow> f64 \<Rightarrow> bool" where
  "f64_less_eq (Fin a) (Fin b) = (a \<le> b)"
| "f64_less_eq (Fin a) PInf = True"
| "f64_less_eq NInf (Fin b) = True"
| "f64_less_eq NInf PInf = True"
| "f64_less_eq NInf NInf = True"
| "f64_less_eq PInf PInf = True"
| "f64_less_eq _ _ = False"

fun f64_add :: "f64 \<Rightarrow> f64 \<Rightarrow> f64" where
  "f64_add (Fin a) (Fin b) = round64 (a + b)"
| "f64_add NaN _ = NaN"
| "f64_add _ NaN = NaN"
| "f64_add PInf NInf = NaN"
| "f64_add NInf PInf = NaN"
| "f64_add PInf _ = PInf"
| "f64_add _ PInf = PInf"
| "f64_add NInf _ = NInf"
| "f64_add _ NInf = NInf"

fun f64_sub :: "f64 \<Rightarrow> f64 \<Rightarrow> f64" where
  "f64_sub (Fin a) (Fin b) = round64 (a - b)"
| "f64_sub NaN _ = NaN"
| "f64_sub _ NaN = NaN"
| "f64_sub PInf PInf = NaN"
| "f64_sub NInf NInf = NaN"
| "f64_sub PInf _ = PInf"
| "f64_sub _ NInf = PInf"
| "f64_sub NInf _ = NInf"
| "f64_sub _ PInf = NInf"

fun f64_abs :: "f64 \<Rightarrow> f64" where
  "f64_abs (Fin a) = Fin \<bar>a\<bar>"
| "f64_abs NaN = NaN"
| "f64_abs PInf = PInf"
| "f64_abs NInf = PInf"

instantiation f64 :: "{zero, ord, plus, minus, abs}"
begin

definition zero_f64 :: f64 where
  "zero_f64 = Fin 0"

definition less_f64 :: "f64 \<Rightarrow> f64 \<Rightarrow> bool" where
  "less_f64 a b = f64_less a b"

definition less_eq_f64 :: "f64 \<Rightarrow> f64 \<Rightarrow> bool" where
  "less_eq_f64 a b = f64_less_eq a b"

definition plus_f64 :: "f64 \<Rightarrow> f64 \<Rightarrow> f64" where
  "plus_f64 a b = f64_add a b"

definition minus_f64 :: "f64 \<Rightarrow> f64 \<Rightarrow> f64" where
  "minus_f64 a b = f64_sub a b"

definition abs_f64 :: "f64 \<Rightarrow> f64" where
  "abs_f64 a = f64_abs a"

instance ..

end

definition float64_of_int :: "int \<Rightarrow> f64" where
  "float64_of_int n = round64 (of_int n)"

fun finite64 :: "f64 \<Rightarrow> bool" where
  "finite64 (Fin a) = True"
| "finite64 _ = False"


section \<open>Data model of package detector\<close>

text \<open>Go strings are byte strings: \<^typ>\<open>string\<close>.\<close>

record SilenceInterval =
  Start :: f64
  End :: f64
  Duration :: f64

record DetectionOptions =
  NoiseLevel :: f64
  MinSilenceDuration :: f64

record DetectionResult =
  Intervals :: "SilenceInterval list"
  InputDuration :: f64


section \<open>Library functions used by the parser\<close>

subsection \<open>Bytes and lines\<close>

definition newline :: char where
  "newline = CHR 0x0A"

text \<open>
  \<^verbatim>\<open>strings.Split(s, "\n")\<close> for the one-byte separator the parser uses: the pieces
  between the separators, at least one piece (the empty text gives one empty line).
\<close>

fun Split :: "string \<Rightarrow> char \<Rightarrow> string list" where
  "Split [] sep = [[]]"
| "Split (c # cs) sep =
     (if c = sep then [] # Split cs sep
      else (case Split cs sep of [] \<Rightarrow> [[c]] | piece # pieces \<Rightarrow> (c # piece) # pieces))"

text \<open>
  \<^verbatim>\<open>strings.TrimSpace\<close> removes the leading and trailing white space, as
  \<^verbatim>\<open>unicode.IsSpace\<close> defines it, of a string in UTF-8: the six ASCII bytes (tab, line
  feed, vertical tab, form feed, carriage return, space), U+0085 and U+00A0 (two bytes),
  and U+1680, U+2000 to U+200A, U+2028, U+2029, U+202F, U+205F and U+3000 (three bytes).
  Bytes that are not valid UTF-8 are not white space.
\<close>

definition asciiSpace :: "char \<Rightarrow> bool" where
  "asciiSpace c \<longleftrightarrow>
     c = CHR 0x09 \<or> c = CHR 0x0A \<or> c = CHR 0x0B \<or> c = CHR 0x0C \<or> c = CHR 0x0D \<or> c = CHR 0x20"

definition space2 :: "char \<Rightarrow> char \<Rightarrow> bool" where
  "space2 a b \<longleftrightarrow> a = CHR 0xC2 \<and> (b = CHR 0x85 \<or> b = CHR 0xA0)"

definition space3 :: "char \<Rightarrow> char \<Rightarrow> char \<Rightarrow> bool" where
  "space3 a b c \<longleftrightarrow>
     (a = CHR 0xE1 \<and> b = CHR 0x9A \<and> c = CHR 0x80) \<or>
     (a = CHR 0xE2 \<and> b = CHR 0x80 \<and>
        (((0x80::nat) \<le> of_char c \<and> of_char c \<le> (0x8A::nat)) \<or>
         c = CHR 0xA8 \<or> c = CHR 0xA9 \<or> c = CHR 0xAF)) \<or>
     (a = CHR 0xE2 \<and> b = CHR 0x81 \<and> c = CHR 0x9F) \<or>
     (a = CHR 0xE3 \<and> b = CHR 0x80 \<and> c = CHR 0x80)"

text \<open>
  \<open>trimLeft\<close> removes the white space at the front; \<open>trimLeftRev\<close> does the same on
  the reversed string, where the bytes of a rune come last byte first.
\<close>

fun trimLeft :: "string \<Rightarrow> string" where
  "trimLeft (a # b # c # s) =
     (if asciiSpace a then trimLeft (b # c # s)
      else if space2 a b then trimLeft (c # s)
      else if space3 a b c then trimLeft s
      else a # b # c # s)"
| "trimLeft [a, b] =
     (if asciiSpace a then trimLeft [b] else if space2 a b then [] else [a, b])"
| "trimLeft [a] = (if asciiSpace a then [] else [a])"
| "trimLeft [] = []"

fun trimLeftRev :: "string \<Rightarrow> string" where
  "trimLeftRev (a # b # c # s) =
     (if asciiSpace a then trimLeftRev (b # c # s)
      else if space2 b a then trimLeftRev (c # s)
      else if space3 c b a then trimLeftRev s
      else a # b # c # s)"
| "trimLeftRev [a, b] =
     (if asciiSpace a then trimLeftRev [b] else if space2 b a then [] else [a, b])"
| "trimLeftRev [a] = (if asciiSpace a then [] else [a])"
| "trimLeftRev [] = []"

definition TrimSpace :: "string \<Rightarrow> string" where
  "TrimSpace s = rev (trimLeftRev (rev (trimLeft s)))"

subsection \<open>Numeric conversions of package strconv\<close>

datatype num_error = ErrSyntax | ErrRange

definition isDigit :: "char \<Rightarrow> bool" where
  "isDigit c \<longleftrightarrow> (48::nat) \<le> of_char c \<and> of_char c \<le> (57::nat)"

definition digit_val :: "char \<Rightarrow> nat" where
  "digit_val c = of_char c - 48"

definition digits_val :: "string \<Rightarrow> nat" where
  "digits_val ds = foldl (\<lambda>a c. 10 * a + digit_val c) 0 ds"

text \<open>
  \<^verbatim>\<open>strconv.ParseFloat(s, 64)\<close> returns the binary64 number nearest to the decimal, and
  \<^verbatim>\<open>ErrRange\<close> when the nearest value is an infinity (a decimal of at least
  \<open>2^1024 - 2^970\<close>).
\<close>

definition float64_range :: "real \<Rightarrow> num_error + f64" where
  "float64_range v = (case round64 v of Fin r \<Rightarrow> Inr (Fin r) | _ \<Rightarrow> Inl ErrRange)"

text \<open>
  \<^verbatim>\<open>strconv.ParseFloat(s, 64)\<close> on the literals \<^verbatim>\<open>digits\<close> and \<^verbatim>\<open>digits.digits\<close>. These
  are the only forms the parser's patterns capture (lemma \<open>number_ParseFloat\<close> below);
  the other forms Go accepts (a sign, an exponent, hexadecimal, \<^verbatim>\<open>inf\<close>, \<^verbatim>\<open>nan\<close>,
  \<^verbatim>\<open>5.\<close>, \<^verbatim>\<open>.5\<close>) never reach it here and are reported as \<^verbatim>\<open>ErrSyntax\<close>.
\<close>

definition ParseFloat :: "string \<Rightarrow> num_error + f64" where
  "ParseFloat s =
     (let ip = takeWhile isDigit s; rest = dropWhile isDigit s in
      if ip = [] then Inl ErrSyntax
      else if rest = [] then float64_range (real (digits_val ip))
      else if hd rest = CHR ''.'' \<and> tl rest \<noteq> [] \<and> list_all isDigit (tl rest)
        then float64_range (real (digits_val ip) + real (digits_val (tl rest)) / 10 ^ length (tl rest))
      else Inl ErrSyntax)"

text \<open>
  \<^verbatim>\<open>strconv.Atoi\<close>: an optional sign and decimal digits, within the range of \<^verbatim>\<open>int\<close>
  (64 bits).
\<close>

definition Atoi :: "string \<Rightarrow> num_error + int" where
  "Atoi s =
     (let neg = (s \<noteq> [] \<and> hd s = CHR ''-'');
          ds = (if s \<noteq> [] \<and> (hd s = CHR ''-'' \<or> hd s = CHR ''+'') then tl s else s) in
      if ds = [] \<or> \<not> list_all isDigit ds then Inl ErrSyntax
      else
        let n = int (digits_val ds); v = (if neg then - n else n) in
        if v < - (2 ^ 63) \<or> v > 2 ^ 63 - 1 then Inl ErrRange else Inr v)"

subsection \<open>Regular expressions of package regexp\<close>

text \<open>
  The fragment of the RE2 syntax the three patterns are written in: literals, the
  classes \<^verbatim>\<open>[0-9]\<close> and \<^verbatim>\<open>\s\<close> (which is \<^verbatim>\<open>[\t\n\f\r ]\<close>, without the vertical tab),
  greedy \<^verbatim>\<open>*\<close> and \<^verbatim>\<open>+\<close> on a class, greedy \<^verbatim>\<open>?\<close>, concatenation and capturing
  groups. The patterns are ASCII, so matching bytes is matching runes.
\<close>

datatype cclass = Digit | Space

fun in_class :: "cclass \<Rightarrow> char \<Rightarrow> bool" where
  "in_class Digit c = isDigit c"
| "in_class Space c =
     (c = CHR 0x09 \<or> c = CHR 0x0A \<or> c = CHR 0x0C \<or> c = CHR 0x0D \<or> c = CHR 0x20)"

datatype regex =
    Lit string
  | Class cclass
  | Star cclass
  | Plus cclass
  | Opt regex
  | Seq regex regex
  | Group regex

fun seqs :: "regex \<Rightarrow> regex list \<Rightarrow> regex" where
  "seqs r [] = r"
| "seqs r (x # xs) = Seq r (seqs x xs)"

text \<open>The bodies of the capturing groups, in the order of the pattern text.\<close>

fun groups :: "regex \<Rightarrow> regex list" where
  "groups (Opt r) = groups r"
| "groups (Seq a b) = groups a @ groups b"
| "groups (Group r) = r # groups r"
| "groups _ = []"

text \<open>
  A backtracking matcher in continuation-passing style: \<open>rmatch r s caps k\<close> matches \<open>r\<close>
  at the front of \<open>s\<close>, trying the alternatives in the order of preference of the
  leftmost-first semantics (a greedy operator takes as much as it can first), and hands
  the rest of the text and the captures so far to \<open>k\<close>; the first alternative on which
  \<open>k\<close> succeeds is the match. A group appends the text it matched when it closes (the
  patterns have no nested groups, so this is the order of the opening parentheses); a
  skipped optional part gives the empty text for each of its groups.
\<close>

fun star :: "cclass \<Rightarrow> string \<Rightarrow> (string \<Rightarrow> 'a option) \<Rightarrow> 'a option" where
  "star C [] k = k []"
| "star C (c # cs) k =
     (if in_class C c then
        (case star C cs k of Some m \<Rightarrow> Some m | None \<Rightarrow> k (c # cs))
      else k (c # cs))"

fun rmatch :: "regex \<Rightarrow> string \<Rightarrow> string list \<Rightarrow> (string \<Rightarrow> string list \<Rightarrow> 'a option) \<Rightarrow> 'a option" where
  "rmatch (Lit l) s caps k =
     (if take (length l) s = l then k (drop (length l) s) caps else None)"
| "rmatch (Class C) s caps k =
     (case s of [] \<Rightarrow> None | c # cs \<Rightarrow> if in_class C c then k cs caps else None)"
| "rmatch (Star C) s caps k = star C s (\<lambda>s'. k s' caps)"
| "rmatch (Plus C) s caps k =
     (case s of [] \<Rightarrow> None
      | c # cs \<Rightarrow> if in_class C c then star C cs (\<lambda>s'. k s' caps) else None)"
| "rmatch (Opt r) s caps k =
     (case rmatch r s caps k of
        Some m \<Rightarrow> Some m
      | None \<Rightarrow> k s (caps @ replicate (length (groups r)) []))"
| "rmatch (Seq a b) s caps k = rmatch a s caps (\<lambda>s' caps'. rmatch b s' caps' k)"
| "rmatch (Group r) s caps k =
     rmatch r s caps (\<lambda>s' caps'. k s' (caps' @ [take (length s - length s') s]))"

text \<open>
  \<^verbatim>\<open>(*Regexp).FindStringSubmatch\<close>: the leftmost match. The result is the matched text
  followed by the text of each group, or the empty list (Go's \<^verbatim>\<open>nil\<close>) when the pattern
  matches nowhere.
\<close>

fun FindStringSubmatch :: "regex \<Rightarrow> string \<Rightarrow> string list" where
  "FindStringSubmatch re [] =
     (case rmatch re [] [] (\<lambda>s' caps. Some ([] # caps)) of Some m \<Rightarrow> m | None \<Rightarrow> [])"
| "FindStringSubmatch re (c # cs) =
     (case rmatch re (c # cs) [] (\<lambda>s' caps. Some (take (length (c # cs) - length s') (c # cs) # caps)) of
        Some m \<Rightarrow> m
      | None \<Rightarrow> FindStringSubmatch re cs)"

section \<open>The parser\<close>

text \<open>The pattern \<^verbatim>\<open>[0-9]+(?:\.[0-9]+)?\<close> that all three patterns capture.\<close>

definition number :: regex where
  "number = Seq (Plus Digit) (Opt (Seq (Lit ''.'') (Plus Digit)))"

definition two_digits :: regex where
  "two_digits = Seq (Class Digit) (Class Digit)"

definition silenceStartPattern :: regex where
  "silenceStartPattern = seqs (Lit ''silence_start:'') [Star Space, Group number]"

definition silenceEndPattern :: regex where
  "silenceEndPattern =
     seqs (Lit ''silence_end:'') [Star Space, Group number, Star Space, Lit ''|'', Star Space,
       Lit ''silence_duration:'', Star Space, Group number]"

definition progressTimePattern :: regex where
  "progressTimePattern =
     seqs (Lit ''time='') [Group two_digits, Lit '':'', Group two_digits, Lit '':'', Group number]"

text \<open>The errors \<^verbatim>\<open>parseSilenceOutput\<close> returns, one for each \<^verbatim>\<open>fmt.Errorf\<close>.\<close>

datatype parse_error =
    ParseSilenceStart num_error
  | ParseSilenceEnd num_error
  | ParseSilenceDuration num_error
  | ParseProgressHours num_error
  | ParseProgressMinutes num_error
  | ParseProgressSeconds num_error

text \<open>The local variables of \<^verbatim>\<open>parseSilenceOutput\<close>.\<close>

record parse_state =
  intervals :: "SilenceInterval list"
  currentStart :: "f64 option"
  lastProgress :: f64

text \<open>
  The body of the \<^verbatim>\<open>for\<close> loop over the lines, for one line: \<open>Inl\<close> is an early
  \<^verbatim>\<open>return nil, 0, err\<close>, \<open>Inr\<close> the state with which the loop goes on (at a
  \<^verbatim>\<open>continue\<close> or at the end of the body).
\<close>

definition loop_body :: "string \<Rightarrow> parse_state \<Rightarrow> parse_error + parse_state" where
  "loop_body l st =
     (let line = TrimSpace l in
      if line = [] then Inr st
      else
        let matches = FindStringSubmatch silenceStartPattern line in
        if length matches = 2 then
          (case ParseFloat (matches ! 1) of
             Inl err \<Rightarrow> Inl (ParseSilenceStart err)
           | Inr start \<Rightarrow> Inr (st\<lparr>currentStart := Some start\<rparr>))
        else
          let matches = FindStringSubmatch silenceEndPattern line in
          if length matches = 3 then
            (case ParseFloat (matches ! 1) of
               Inl err \<Rightarrow> Inl (ParseSilenceEnd err)
             | Inr end \<Rightarrow>
                 (case ParseFloat (matches ! 2) of
                    Inl err \<Rightarrow> Inl (ParseSilenceDuration err)
                  | Inr duration \<Rightarrow>
                      let start = (case currentStart st of None \<Rightarrow> end - duration | Some cs \<Rightarrow> cs) in
                      Inr (st\<lparr>intervals := intervals st @ [\<lparr>Start = start, End = end, Duration = duration\<rparr>],
                             currentStart := None\<rparr>)))
          else
            let matches = FindStringSubmatch progressTimePattern line in
            if length matches = 4 then
              (case Atoi (matches ! 1) of
                 Inl err \<Rightarrow> Inl (ParseProgressHours err)
               | Inr hours \<Rightarrow>
                   (case Atoi (matches ! 2) of
                      Inl err \<Rightarrow> Inl (ParseProgressMinutes err)
                    | Inr minutes \<Rightarrow>
                        (case ParseFloat (matches ! 3) of
                           Inl err \<Rightarrow> Inl (ParseProgressSeconds err)
                         | Inr seconds \<Rightarrow>
                             Inr (st\<lparr>lastProgress := float64_of_int (hours * 3600 + minutes * 60) + seconds\<rparr>))))
            else Inr st)"

fun line_loop :: "string list \<Rightarrow> parse_state \<Rightarrow> parse_error + parse_state" where
  "line_loop [] st = Inr st"
| "line_loop (l # ls) st =
     (case loop_body l st of Inl err \<Rightarrow> Inl err | Inr st' \<Rightarrow> line_loop ls st')"

text \<open>
  \<^verbatim>\<open>parseSilenceOutput\<close> returns Go's triple: the intervals, the duration and the error
  (\<open>None\<close> is \<^verbatim>\<open>nil\<close>; a \<^verbatim>\<open>nil\<close> slice is the empty list).
\<close>

definition parseSilenceOutput :: "string \<Rightarrow> SilenceInterval list \<times> f64 \<times> parse_error option" where
  "parseSilenceOutput output =
     (case line_loop (Split output newline) \<lparr>intervals = [], currentStart = None, lastProgress = 0\<rparr> of
        Inl err \<Rightarrow> ([], 0, Some err)
      | Inr st \<Rightarrow>
          (if currentStart st \<noteq> None \<and> lastProgress st > the (currentStart st) then
             let start = the (currentStart st); end = lastProgress st in
             (intervals st @ [\<lparr>Start = start, End = end, Duration = end - start\<rparr>], lastProgress st, None)
           else (intervals st, lastProgress st, None)))"

section \<open>FullySilent\<close>

text \<open>
  The \<^verbatim>\<open>for\<close> loop of \<^verbatim>\<open>FullySilent\<close> over \<^verbatim>\<open>r.Intervals[1:]\<close>: \<open>False\<close> is the
  early \<^verbatim>\<open>return false\<close>, \<open>True\<close> is the loop running to its end.
\<close>

fun gap_loop :: "f64 \<Rightarrow> f64 \<Rightarrow> SilenceInterval list \<Rightarrow> bool" where
  "gap_loop tolerance prevEnd [] = True"
| "gap_loop tolerance prevEnd (interval # rest) =
     (if Start interval - prevEnd > tolerance then False
      else gap_loop tolerance (End interval) rest)"

definition FullySilent :: "DetectionResult \<Rightarrow> f64 \<Rightarrow> bool" where
  "FullySilent r tolerance =
     (if InputDuration r \<le> 0 \<or> length (Intervals r) = 0 then False
      else
        let first = Intervals r ! 0 in
        if Start first > tolerance then False
        else if \<not> gap_loop tolerance (End first) (drop 1 (Intervals r)) then False
        else
          let last = Intervals r ! (length (Intervals r) - 1) in
          if \<bar>End last - InputDuration r\<bar> > tolerance then False
          else True)"

section \<open>DetectSilence\<close>

text \<open>
  The command runner is a parameter of the detector: it gets the context, the
  program name and the arguments, and returns the combined output and an error
  (\<open>None\<close> is \<^verbatim>\<open>nil\<close>). The type \<open>'x\<close> is the type of the runner's errors.
\<close>

record ('c, 'x) Detector =
  ffmpegPath :: string
  run :: "'c \<Rightarrow> string \<Rightarrow> string list \<Rightarrow> string \<times> 'x option"

datatype 'x detect_error =
    InputPathRequired
  | MinDurationNotPositive f64
  | ExecutionFailed 'x string
  | ParseFailed parse_error

text \<open>
  What a call of \<^verbatim>\<open>DetectSilence\<close> did, in order: it invoked the runner with a program
  name and arguments, it parsed an output.
\<close>

datatype effect = Ran string "string list" | Parsed string

text \<open>
  \<^verbatim>\<open>DetectSilence\<close> returns the trace of what it did and Go's pair of result and
  error. \<^verbatim>\<open>strconv.FormatFloat(x, 'f', -1, 64)\<close> is the parameter \<open>FormatFloat\<close>.
\<close>

definition DetectSilence ::
  "(f64 \<Rightarrow> string) \<Rightarrow> ('c, 'x) Detector \<Rightarrow> 'c \<Rightarrow> string \<Rightarrow> DetectionOptions \<Rightarrow>
     effect list \<times> DetectionResult \<times> 'x detect_error option" where
  "DetectSilence FormatFloat d ctx inputPath options =
     (if inputPath = [] then
        ([], \<lparr>Intervals = [], InputDuration = 0\<rparr>, Some InputPathRequired)
      else if MinSilenceDuration options \<le> 0 then
        ([], \<lparr>Intervals = [], InputDuration = 0\<rparr>,
         Some (MinDurationNotPositive (MinSilenceDuration options)))
      else
        let noiseLevel = FormatFloat (NoiseLevel options);
            minDuration = FormatFloat (MinSilenceDuration options);
            filterArg = ''silencedetect=noise='' @ noiseLevel @ ''dB:d='' @ minDuration;
            args = [''-i'', inputPath, ''-af'', filterArg, ''-f'', ''null'', ''-''];
            ran = run d ctx (ffmpegPath d) args
        in
          (case snd ran of
             Some err \<Rightarrow>
               ([Ran (ffmpegPath d) args], \<lparr>Intervals = [], InputDuration = 0\<rparr>,
                Some (ExecutionFailed err (TrimSpace (fst ran))))
           | None \<Rightarrow>
               (case parseSilenceOutput (fst ran) of
                  (ivs, duration, Some err) \<Rightarrow>
                    ([Ran (ffmpegPath d) args, Parsed (fst ran)],
                     \<lparr>Intervals = [], InputDuration = 0\<rparr>, Some (ParseFailed err))
                | (ivs, duration, None) \<Rightarrow>
                    ([Ran (ffmpegPath d) args, Parsed (fst ran)],
                     \<lparr>Intervals = ivs, InputDuration = duration\<rparr>, None))))"

section \<open>The parser as a fold over events\<close>

text \<open>
  The three kinds of line the loop body acts on, with the numbers it parsed from them.
\<close>

datatype event = SilenceStart f64 | SilenceEnd f64 f64 | Progress f64

text \<open>
  The event of a line, as the loop body finds it: the patterns are tried in the order
  start, end, progress, on the trimmed line, and the first that matches decides.
  \<open>Inr None\<close> is a line that is blank or matches no pattern, \<open>Inl\<close> a line whose
  pattern matched and whose captured number did not parse.
\<close>

definition line_event :: "string \<Rightarrow> parse_error + event option" where
  "line_event l =
     (let line = TrimSpace l in
      if line = [] then Inr None
      else if length (FindStringSubmatch silenceStartPattern line) = 2 then
        (case ParseFloat (FindStringSubmatch silenceStartPattern line ! 1) of
           Inl err \<Rightarrow> Inl (ParseSilenceStart err)
         | Inr start \<Rightarrow> Inr (Some (SilenceStart start)))
      else if length (FindStringSubmatch silenceEndPattern line) = 3 then
        (case ParseFloat (FindStringSubmatch silenceEndPattern line ! 1) of
           Inl err \<Rightarrow> Inl (ParseSilenceEnd err)
         | Inr end \<Rightarrow>
             (case ParseFloat (FindStringSubmatch silenceEndPattern line ! 2) of
                Inl err \<Rightarrow> Inl (ParseSilenceDuration err)
              | Inr duration \<Rightarrow> Inr (Some (SilenceEnd end duration))))
      else if length (FindStringSubmatch progressTimePattern line) = 4 then
        (case Atoi (FindStringSubmatch progressTimePattern line ! 1) of
           Inl err \<Rightarrow> Inl (ParseProgressHours err)
         | Inr hours \<Rightarrow>
             (case Atoi (FindStringSubmatch progressTimePattern line ! 2) of
                Inl err \<Rightarrow> Inl (ParseProgressMinutes err)
              | Inr minutes \<Rightarrow>
                  (case ParseFloat (FindStringSubmatch progressTimePattern line ! 3) of
                     Inl err \<Rightarrow> Inl (ParseProgressSeconds err)
                   | Inr seconds \<Rightarrow>
                       Inr (Some (Progress (float64_of_int (hours * 3600 + minutes * 60) + seconds))))))
      else Inr None)"

fun apply_event :: "parse_state \<Rightarrow> event \<Rightarrow> parse_state" where
  "apply_event st (SilenceStart t) = st\<lparr>currentStart := Some t\<rparr>"
| "apply_event st (SilenceEnd e d) =
     st\<lparr>intervals := intervals st @
           [\<lparr>Start = (case currentStart st of None \<Rightarrow> e - d | Some cs \<Rightarrow> cs), End = e, Duration = d\<rparr>],
        currentStart := None\<rparr>"
| "apply_event st (Progress p) = st\<lparr>lastProgress := p\<rparr>"

text \<open>The events of the lines, in order, up to the first line that fails.\<close>

fun line_events :: "string list \<Rightarrow> parse_error + event list" where
  "line_events [] = Inr []"
| "line_events (l # ls) =
     (case line_event l of
        Inl err \<Rightarrow> Inl err
      | Inr ev \<Rightarrow>
          (case line_events ls of
             Inl err \<Rightarrow> Inl err
           | Inr es \<Rightarrow> Inr (case ev of None \<Rightarrow> es | Some x \<Rightarrow> x # es)))"

definition events :: "string \<Rightarrow> parse_error + event list" where
  "events text = line_events (Split text newline)"

definition initial_state :: parse_state where
  "initial_state = \<lparr>intervals = [], currentStart = None, lastProgress = 0\<rparr>"

text \<open>The end of \<^verbatim>\<open>parseSilenceOutput\<close>, after the loop: the trailing interval.\<close>

definition finish :: "parse_state \<Rightarrow> SilenceInterval list \<times> f64 \<times> parse_error option" where
  "finish st =
     (case currentStart st of
        None \<Rightarrow> (intervals st, lastProgress st, None)
      | Some t \<Rightarrow>
          if lastProgress st > t then
            (intervals st @ [\<lparr>Start = t, End = lastProgress st, Duration = lastProgress st - t\<rparr>],
             lastProgress st, None)
          else (intervals st, lastProgress st, None))"

section \<open>The language of a pattern\<close>

text \<open>
  What a pattern can match, as a set of texts; \<open>plain\<close> patterns have no group inside
  a group or inside an optional part (the three patterns of the parser are plain).
\<close>

fun lang :: "regex \<Rightarrow> string set" where
  "lang (Lit l) = {l}"
| "lang (Class C) = {w. \<exists>c. w = [c] \<and> in_class C c}"
| "lang (Star C) = {w. list_all (in_class C) w}"
| "lang (Plus C) = {w. w \<noteq> [] \<and> list_all (in_class C) w}"
| "lang (Opt r) = insert [] (lang r)"
| "lang (Seq a b) = {w. \<exists>u v. w = u @ v \<and> u \<in> lang a \<and> v \<in> lang b}"
| "lang (Group r) = lang r"

fun plain :: "regex \<Rightarrow> bool" where
  "plain (Opt r) = (groups r = [])"
| "plain (Seq a b) = (plain a \<and> plain b)"
| "plain (Group r) = (groups r = [])"
| "plain _ = True"

definition cap_ok :: "nat \<Rightarrow> string \<Rightarrow> regex \<Rightarrow> bool" where
  "cap_ok n g b \<longleftrightarrow> g \<in> lang b \<and> length g \<le> n"


section \<open>Predicates on events and intervals\<close>

text \<open>
  A finite binary64 number, and an event as the loop body parses it: the numbers of a
  start or end marker are finite binary64 numbers that are not negative, and a progress
  time is not negative.
\<close>

fun binary64 :: "f64 \<Rightarrow> bool" where
  "binary64 (Fin r) = (round64 r = Fin r)"
| "binary64 _ = False"

fun parsed_event :: "event \<Rightarrow> bool" where
  "parsed_event (SilenceStart t) = (binary64 t \<and> 0 \<le> t)"
| "parsed_event (SilenceEnd e d) = (binary64 e \<and> binary64 d \<and> 0 \<le> e \<and> 0 \<le> d)"
| "parsed_event (Progress p) = (0 \<le> p)"


text \<open>
  The event of a line whose pattern matched, from the values of the captured numbers:
  only the range check of \<open>ParseFloat\<close> is left to decide.
\<close>

definition start_result :: "real \<Rightarrow> parse_error + event option" where
  "start_result v =
     (case float64_range v of
        Inl err \<Rightarrow> Inl (ParseSilenceStart err)
      | Inr start \<Rightarrow> Inr (Some (SilenceStart start)))"

definition end_result :: "real \<Rightarrow> real \<Rightarrow> parse_error + event option" where
  "end_result v d =
     (case float64_range v of
        Inl err \<Rightarrow> Inl (ParseSilenceEnd err)
      | Inr e \<Rightarrow>
          (case float64_range d of
             Inl err \<Rightarrow> Inl (ParseSilenceDuration err)
           | Inr duration \<Rightarrow> Inr (Some (SilenceEnd e duration))))"

definition progress_result :: "int \<Rightarrow> int \<Rightarrow> real \<Rightarrow> parse_error + event option" where
  "progress_result h m v =
     (case float64_range v of
        Inl err \<Rightarrow> Inl (ParseProgressSeconds err)
      | Inr seconds \<Rightarrow> Inr (Some (Progress (float64_of_int (h * 3600 + m * 60) + seconds))))"

text \<open>The errors for a captured number out of range.\<close>

definition range_errors :: "parse_error set" where
  "range_errors = {ParseSilenceStart ErrRange, ParseSilenceEnd ErrRange,
     ParseSilenceDuration ErrRange, ParseProgressSeconds ErrRange}"

text \<open>Progress events, and the last progress time of a list of events (\<open>p\<close> when there is none).\<close>

fun is_progress :: "event \<Rightarrow> bool" where
  "is_progress (Progress p) = True"
| "is_progress _ = False"

fun last_progress :: "f64 \<Rightarrow> event list \<Rightarrow> f64" where
  "last_progress p [] = p"
| "last_progress p (Progress q # es) = last_progress q es"
| "last_progress p (SilenceStart t # es) = last_progress p es"
| "last_progress p (SilenceEnd e d # es) = last_progress p es"

text \<open>The intervals the events have closed, from the initial state.\<close>

definition closed_intervals :: "event list \<Rightarrow> SilenceInterval list" where
  "closed_intervals es = intervals (foldl apply_event initial_state es)"

text \<open>
  Chronological and non-overlapping: each interval starts at or after the end, and at or
  after the start, of the one before it.
\<close>

fun chronological :: "SilenceInterval list \<Rightarrow> bool" where
  "chronological (a # b # rest) = (End a \<le> Start b \<and> Start a \<le> Start b \<and> chronological (b # rest))"
| "chronological _ = True"

text \<open>
  An event list whose time stamps never go back, from the time \<open>t\<close> of the last start or
  end marker and the pending start: a start marker is at or after \<open>t\<close>; an end marker
  with a pending start is at or after that start; an end marker with no pending start has
  a duration that is not negative and a fallback start \<open>e - d\<close> (the \<^verbatim>\<open>float64\<close>
  difference) at or after \<open>t\<close>.
\<close>

fun well_ordered :: "f64 \<Rightarrow> f64 option \<Rightarrow> event list \<Rightarrow> bool" where
  "well_ordered t pending [] = True"
| "well_ordered t pending (SilenceStart s # es) = (t \<le> s \<and> well_ordered s (Some s) es)"
| "well_ordered t pending (SilenceEnd e d # es) =
     ((case pending of Some s \<Rightarrow> s \<le> e | None \<Rightarrow> 0 \<le> d \<and> t \<le> e - d) \<and> well_ordered e None es)"
| "well_ordered t pending (Progress p # es) = well_ordered t pending es"

text \<open>
  An event list in which every end marker reports, as its duration, the \<^verbatim>\<open>float64\<close>
  difference of its end and the start the loop stores with it: the pending start, or
  with no pending start the fallback \<open>e - d\<close>, itself a rounded difference.
\<close>

fun durations_consistent :: "f64 option \<Rightarrow> event list \<Rightarrow> bool" where
  "durations_consistent pending [] = True"
| "durations_consistent pending (SilenceStart s # es) = durations_consistent (Some s) es"
| "durations_consistent pending (SilenceEnd e d # es) =
     ((case pending of Some s \<Rightarrow> d = e - s | None \<Rightarrow> d = e - (e - d)) \<and>
      durations_consistent None es)"
| "durations_consistent pending (Progress p # es) = durations_consistent pending es"

text \<open>
  An event list in which every end marker is at or after the pending start it closes,
  and with no pending start is at or after its own duration.
\<close>

fun ends_consistent :: "f64 option \<Rightarrow> event list \<Rightarrow> bool" where
  "ends_consistent pending [] = True"
| "ends_consistent pending (SilenceStart s # es) = ends_consistent (Some s) es"
| "ends_consistent pending (SilenceEnd e d # es) =
     ((case pending of Some s \<Rightarrow> s \<le> e | None \<Rightarrow> d \<le> e) \<and> ends_consistent None es)"
| "ends_consistent pending (Progress p # es) = ends_consistent pending es"

text \<open>The invariant of the loop on well-ordered events, with the time \<open>t\<close> of the last marker.\<close>

definition ordered_state :: "f64 \<Rightarrow> parse_state \<Rightarrow> bool" where
  "ordered_state t st \<longleftrightarrow>
     chronological (intervals st) \<and>
     (intervals st \<noteq> [] \<longrightarrow> End (last (intervals st)) \<le> t \<and> Start (last (intervals st)) \<le> t) \<and>
     (\<forall>s. currentStart st = Some s \<longrightarrow> t \<le> s)"

text \<open>The invariant of the loop for the bounds of the intervals.\<close>

definition bounded_state :: "parse_state \<Rightarrow> bool" where
  "bounded_state st \<longleftrightarrow>
     (\<forall>iv\<in>set (intervals st). 0 \<le> Start iv \<and> Start iv \<le> End iv) \<and>
     (\<forall>s. currentStart st = Some s \<longrightarrow> 0 \<le> s)"

text \<open>The duration of an interval is the \<^verbatim>\<open>float64\<close> difference of its end and its start.\<close>

definition duration_is_difference :: "SilenceInterval \<Rightarrow> bool" where
  "duration_is_difference iv \<longleftrightarrow> Duration iv = End iv - Start iv"

section \<open>Example texts\<close>

text \<open>Scenario A of the specification.\<close>

definition scenario_A :: string where
  "scenario_A = ''silence_start: 0.000000'' @ newline #
     ''silence_end: 3.500000 | silence_duration: 3.500000'' @ newline #
     ''silence_start: 10.000000'' @ newline #
     ''silence_end: 12.000000 | silence_duration: 2.000000'' @ newline #
     ''time=00:00:12.00''"


text \<open>
  The binary64 numbers nearest to the decimals of some texts, and some of their rounded
  sums and differences, as fractions.
\<close>

definition f_68_21 :: real where "f_68_21 = 4799852040358461 / 2 ^ 46"
definition f_8_21 :: real where "f_8_21 = 4621819117588972 / 2 ^ 49"
definition f_68_21_sum :: real where "f_68_21_sum = 4799852040358462 / 2 ^ 46"
definition f_7_2 :: real where "f_7_2 = 8106479329266893 / 2 ^ 50"
definition f_7_2_start :: real where "f_7_2_start = 6980579422424269 / 2 ^ 50"
definition f_9_2 :: real where "f_9_2 = 5179139571476070 / 2 ^ 49"
definition f_9_2_start :: real where "f_9_2_start = 8106479329266892 / 2 ^ 50"
definition f_100_1 :: real where "f_100_1 = 7043911292184166 / 2 ^ 46"
definition f_0_3 :: real where "f_0_3 = 5404319552844595 / 2 ^ 54"
definition f_100_1_start :: real where "f_100_1_start = 7022800668930867 / 2 ^ 46"
definition f_100_1_diff :: real where "f_100_1_diff = 5404319552844544 / 2 ^ 54"


definition text_7_2 :: string where
  "text_7_2 = ''silence_end: 7.2 | silence_duration: 1'' @ newline # ''silence_end: 9.2 | silence_duration: 2''"


section \<open>Properties of the rounding\<close>

lemma powi_powr: "(2::real) powi k = 2 powr (of_int k)"
  by (simp add: powr_real_of_int')

lemma expo_iff: "x \<noteq> 0 \<Longrightarrow> expo x = k \<longleftrightarrow> 2 powi k \<le> \<bar>x\<bar> \<and> \<bar>x\<bar> < 2 powi (k + 1)"
  unfolding expo_def powi_powr using floor_log_eq_powr_iff [of "\<bar>x\<bar>" 2 k] by simp

lemma expo_bounds: "x \<noteq> 0 \<Longrightarrow> 2 powi expo x \<le> \<bar>x\<bar> \<and> \<bar>x\<bar> < 2 powi (expo x + 1)"
  using expo_iff [of x "expo x"] by simp

lemma powi2_mono: "a \<le> b \<Longrightarrow> (2::real) powi a \<le> 2 powi b"
  by (rule power_int_increasing) simp_all

lemma powi2_less_cancel: "(2::real) powi a < 2 powi b \<Longrightarrow> a < b"
  using powi2_mono [of b a] by (cases "a < b") auto

lemma expo_less: "x \<noteq> 0 \<Longrightarrow> \<bar>x\<bar> < 2 powi k \<Longrightarrow> expo x < k"
proof -
  assume a: "x \<noteq> 0" "\<bar>x\<bar> < 2 powi k"
  have "2 powi expo x \<le> \<bar>x\<bar>" using expo_bounds [OF a(1)] by simp
  then have "(2::real) powi expo x < 2 powi k" using a(2) by linarith
  then show ?thesis by (rule powi2_less_cancel)
qed

lemma expo_ge: "x \<noteq> 0 \<Longrightarrow> 2 powi k \<le> \<bar>x\<bar> \<Longrightarrow> k \<le> expo x"
proof -
  assume a: "x \<noteq> 0" "2 powi k \<le> \<bar>x\<bar>"
  have "\<bar>x\<bar> < 2 powi (expo x + 1)" using expo_bounds [OF a(1)] by simp
  then have "(2::real) powi k < 2 powi (expo x + 1)" using a(2) by linarith
  then have "k < expo x + 1" by (rule powi2_less_cancel)
  then show ?thesis by simp
qed

lemma expo_mono: "x \<noteq> 0 \<Longrightarrow> \<bar>x\<bar> \<le> \<bar>y\<bar> \<Longrightarrow> expo x \<le> expo y"
proof -
  assume a: "x \<noteq> 0" "\<bar>x\<bar> \<le> \<bar>y\<bar>"
  then have y: "y \<noteq> 0" by auto
  have "2 powi expo x \<le> \<bar>y\<bar>" using expo_bounds [OF a(1)] a(2) by linarith
  then show ?thesis by (rule expo_ge [OF y])
qed

lemma rne_of_int: "rne (of_int n) = n"
  by (simp add: rne_def)

lemma rne_bounds: "of_int (rne z) \<le> z + 1 / 2 \<and> z - 1 / 2 \<le> of_int (rne z)"
  unfolding rne_def Let_def by (auto; linarith)

lemma rne_floor: "\<lfloor>z\<rfloor> \<le> rne z \<and> rne z \<le> \<lfloor>z\<rfloor> + 1"
  unfolding rne_def Let_def by auto

lemma rne_mono: "z \<le> w \<Longrightarrow> rne z \<le> rne w"
proof -
  assume zw: "z \<le> w"
  have fl: "\<lfloor>z\<rfloor> \<le> \<lfloor>w\<rfloor>" using zw by (rule floor_mono)
  show ?thesis
  proof (cases "\<lfloor>z\<rfloor> = \<lfloor>w\<rfloor>")
    case True
    then have "z - of_int \<lfloor>z\<rfloor> \<le> w - of_int \<lfloor>w\<rfloor>" using zw by simp
    then show ?thesis using True unfolding rne_def Let_def by auto
  next
    case False
    then have "\<lfloor>z\<rfloor> + 1 \<le> \<lfloor>w\<rfloor>" using fl by simp
    then show ?thesis using rne_floor [of z] rne_floor [of w] by linarith
  qed
qed

lemma rne_uminus: "rne (- z) = - rne z"
proof (cases "z \<in> \<int>")
  case True
  then obtain n where "z = of_int n" by (auto elim: Ints_cases)
  then show ?thesis using rne_of_int [of n] rne_of_int [of "- n"] by simp
next
  case False
  then have "z \<noteq> of_int \<lfloor>z\<rfloor>" by (metis Ints_of_int)
  then have f: "\<lfloor>- z\<rfloor> = - \<lfloor>z\<rfloor> - 1"
    by (simp add: floor_minus ceiling_altdef)
  have r: "- z - of_int \<lfloor>- z\<rfloor> = 1 - (z - of_int \<lfloor>z\<rfloor>)" using f by simp
  have e: "even (- \<lfloor>z\<rfloor> - 1) \<longleftrightarrow> odd \<lfloor>z\<rfloor>" by simp
  show ?thesis
    unfolding rne_def Let_def r f e by (auto; linarith)
qed

lemma powi2_pos: "0 < (2::real) powi k"
  by (simp add: power_int_def)

lemma powi2_split: "(2::real) powi (a + b) = 2 powi a * 2 powi b"
  by (rule power_int_add) simp

lemma expo_uminus: "expo (- x) = expo x"
  by (simp add: expo_def)

lemma ulp_exp_uminus: "ulp_exp (- x) = ulp_exp x"
  by (simp add: ulp_exp_def expo_uminus)

lemma round64r_uminus: "round64r (- x) = - round64r x"
  by (simp add: round64r_def ulp_exp_uminus rne_uminus)

lemma round64r_0: "round64r 0 = 0"
  by (simp add: round64r_def)

lemma round64r_nonneg: "0 \<le> x \<Longrightarrow> 0 \<le> round64r x"
proof -
  assume x: "0 \<le> x"
  have "0 \<le> x / 2 powi ulp_exp x" using x powi2_pos [of "ulp_exp x"] by simp
  then have "rne 0 \<le> rne (x / 2 powi ulp_exp x)" by (rule rne_mono)
  then have "0 \<le> rne (x / 2 powi ulp_exp x)" using rne_of_int [of 0] by simp
  then show ?thesis using powi2_pos [of "ulp_exp x"] by (simp add: round64r_def)
qed

lemma round64r_upper:
  assumes "0 < x"
  shows "round64r x \<le> 2 powi (ulp_exp x + 53)"
proof -
  let ?u = "(2::real) powi ulp_exp x"
  have x0: "x \<noteq> 0" using assms by simp
  have "x < 2 powi (expo x + 1)" using expo_bounds [OF x0] assms by simp
  also have "\<dots> \<le> 2 powi (ulp_exp x + 53)" by (rule powi2_mono) (simp add: ulp_exp_def)
  also have "\<dots> = ?u * 2 powi 53" by (rule powi2_split)
  finally have "x / ?u \<le> of_int (2 ^ 53)" using powi2_pos [of "ulp_exp x"]
    by (simp add: field_simps)
  then have "rne (x / ?u) \<le> rne (of_int (2 ^ 53))" by (rule rne_mono)
  then have "rne (x / ?u) \<le> 2 ^ 53" by (simp only: rne_of_int)
  then have "real_of_int (rne (x / ?u)) \<le> 2 powi 53"
    by (metis of_int_le_iff of_int_numeral of_int_power power_int_numeral)
  then have "real_of_int (rne (x / ?u)) * ?u \<le> 2 powi 53 * ?u"
    using powi2_pos [of "ulp_exp x"] by (intro mult_right_mono) simp_all
  then show ?thesis using x0 by (simp add: round64r_def powi2_split mult.commute)
qed

lemma round64r_lower:
  assumes "0 < x" "- 1022 \<le> expo x"
  shows "2 powi (expo x) \<le> round64r x"
proof -
  let ?u = "(2::real) powi ulp_exp x"
  have x0: "x \<noteq> 0" using assms by simp
  have e: "expo x = ulp_exp x + 52" using assms(2) by (simp add: ulp_exp_def)
  have "?u * 2 powi 52 = 2 powi (expo x)" unfolding e by (rule powi2_split [symmetric])
  also have "\<dots> \<le> x" using expo_bounds [OF x0] assms(1) by simp
  finally have "of_int (2 ^ 52) \<le> x / ?u" using powi2_pos [of "ulp_exp x"]
    by (simp add: field_simps)
  then have "rne (of_int (2 ^ 52)) \<le> rne (x / ?u)" by (rule rne_mono)
  then have "2 ^ 52 \<le> rne (x / ?u)" by (simp only: rne_of_int)
  then have "2 powi 52 \<le> real_of_int (rne (x / ?u))"
    by (metis of_int_le_iff of_int_numeral of_int_power power_int_numeral)
  then have "2 powi 52 * ?u \<le> real_of_int (rne (x / ?u)) * ?u"
    using powi2_pos [of "ulp_exp x"] by (intro mult_right_mono) simp_all
  then show ?thesis using x0 unfolding e by (simp add: round64r_def powi2_split mult.commute)
qed

lemma round64r_mono_pos:
  assumes "0 < x" "x \<le> y"
  shows "round64r x \<le> round64r y"
proof -
  have x0: "x \<noteq> 0" and y0: "y \<noteq> 0" and ypos: "0 < y" using assms by auto
  have em: "expo x \<le> expo y" using expo_mono [OF x0, of y] assms by simp
  then have um: "ulp_exp x \<le> ulp_exp y" by (simp add: ulp_exp_def)
  show ?thesis
  proof (cases "ulp_exp x = ulp_exp y")
    case True
    have "x / 2 powi ulp_exp y \<le> y / 2 powi ulp_exp y"
      using assms(2) powi2_pos [of "ulp_exp y"] by (simp add: divide_right_mono)
    then have "rne (x / 2 powi ulp_exp y) \<le> rne (y / 2 powi ulp_exp y)" by (rule rne_mono)
    then have "real_of_int (rne (x / 2 powi ulp_exp y)) * 2 powi ulp_exp y
                 \<le> real_of_int (rne (y / 2 powi ulp_exp y)) * 2 powi ulp_exp y"
      using powi2_pos [of "ulp_exp y"] by (intro mult_right_mono) simp_all
    then show ?thesis using x0 y0 True by (simp add: round64r_def)
  next
    case False
    then have lt: "ulp_exp x < ulp_exp y" using um by simp
    then have ey: "- 1022 \<le> expo y" "expo y = ulp_exp y + 52"
      by (auto simp: ulp_exp_def max_def split: if_splits)
    have "round64r x \<le> 2 powi (ulp_exp x + 53)" by (rule round64r_upper [OF assms(1)])
    also have "\<dots> \<le> 2 powi (expo y)" unfolding ey(2) using lt by (intro powi2_mono) simp
    also have "\<dots> \<le> round64r y" by (rule round64r_lower [OF ypos ey(1)])
    finally show ?thesis .
  qed
qed

lemma round64r_mono: "x \<le> y \<Longrightarrow> round64r x \<le> round64r y"
proof -
  assume xy: "x \<le> y"
  consider "0 < x" | "x \<le> 0" "0 \<le> y" | "y < 0" by linarith
  then show ?thesis
  proof cases
    case 1
    then show ?thesis using xy by (rule round64r_mono_pos)
  next
    case 2
    have "0 \<le> round64r (- x)" using 2(1) by (intro round64r_nonneg) simp
    then have "round64r x \<le> 0" by (simp add: round64r_uminus)
    moreover have "0 \<le> round64r y" using 2(2) by (rule round64r_nonneg)
    ultimately show ?thesis by linarith
  next
    case 3
    have "round64r (- y) \<le> round64r (- x)" using 3 xy by (intro round64r_mono_pos) simp_all
    then show ?thesis by (simp add: round64r_uminus)
  qed
qed

text \<open>Representable numbers are fixed points.\<close>

lemma round64r_fixed:
  assumes "\<bar>m\<bar> < 2 ^ 53" "- 1074 \<le> k"
  shows "round64r (of_int m * 2 powi k) = of_int m * 2 powi k"
proof (cases "m = 0")
  case True
  then show ?thesis by (simp add: round64r_def)
next
  case False
  let ?x = "real_of_int m * 2 powi k"
  have x0: "?x \<noteq> 0" using False by simp
  have "\<bar>?x\<bar> = real_of_int \<bar>m\<bar> * 2 powi k" using powi2_pos [of k] by (simp add: abs_mult)
  also have "\<dots> < real_of_int (2 ^ 53) * 2 powi k"
    using assms(1) powi2_pos [of k] by (intro mult_strict_right_mono) simp_all
  also have "\<dots> = 2 powi (53 + k)" by (simp add: powi2_split)
  finally have "expo ?x < 53 + k" by (rule expo_less [OF x0])
  then have n: "0 \<le> k - ulp_exp ?x" using assms(2) by (simp add: ulp_exp_def)
  have "?x / 2 powi ulp_exp ?x = real_of_int m * 2 powi (k - ulp_exp ?x)"
    by (simp add: power_int_diff)
  also have "\<dots> = real_of_int (m * 2 ^ nat (k - ulp_exp ?x))"
    using n by (simp add: power_int_def)
  finally have i: "?x / 2 powi ulp_exp ?x = real_of_int (m * 2 ^ nat (k - ulp_exp ?x))" .
  have "round64r ?x = real_of_int (m * 2 ^ nat (k - ulp_exp ?x)) * 2 powi ulp_exp ?x"
    using x0 unfolding round64r_def i rne_of_int by simp
  also have "\<dots> = ?x / 2 powi ulp_exp ?x * 2 powi ulp_exp ?x" by (simp only: i)
  also have "\<dots> = ?x" using powi2_pos [of "ulp_exp ?x"] by simp
  finally show ?thesis .
qed

lemma round64r_idem: "round64r (round64r x) = round64r x"
proof (cases "x = 0")
  case True
  then show ?thesis by (simp add: round64r_def)
next
  case False
  let ?u = "ulp_exp x"
  let ?M = "rne (x / 2 powi ?u)"
  have r: "round64r x = of_int ?M * 2 powi ?u" using False by (simp add: round64r_def)
  have u: "- 1074 \<le> ?u" by (simp add: ulp_exp_def)
  have b: "\<bar>?M\<bar> \<le> 2 ^ 53"
  proof -
    have "\<bar>x\<bar> < 2 powi (expo x + 1)" using expo_bounds [OF False] by simp
    also have "\<dots> \<le> 2 powi (?u + 53)" by (rule powi2_mono) (simp add: ulp_exp_def)
    also have "\<dots> = 2 powi ?u * 2 powi 53" by (rule powi2_split)
    finally have "\<bar>x\<bar> / 2 powi ?u \<le> of_int (2 ^ 53)" using powi2_pos [of ?u]
      by (simp add: field_simps)
    then have a: "x / 2 powi ?u \<le> of_int (2 ^ 53)" "of_int (- (2 ^ 53)) \<le> x / 2 powi ?u"
      using powi2_pos [of ?u] by (simp_all add: field_simps abs_le_iff)
    have "?M \<le> rne (of_int (2 ^ 53))" using a(1) by (rule rne_mono)
    moreover have "rne (of_int (- (2 ^ 53))) \<le> ?M" using a(2) by (rule rne_mono)
    ultimately show ?thesis by (simp only: rne_of_int)
  qed
  show ?thesis
  proof (cases "\<bar>?M\<bar> = 2 ^ 53")
    case True
    then consider "?M = 2 ^ 53" | "?M = - (2 ^ 53)" by linarith
    then have "round64r x = of_int 1 * 2 powi (?u + 53) \<or> round64r x = of_int (- 1) * 2 powi (?u + 53)"
      unfolding r by cases (simp_all add: powi2_split)
    moreover have "round64r (of_int 1 * 2 powi (?u + 53)) = of_int 1 * 2 powi (?u + 53)"
      using u by (intro round64r_fixed) simp_all
    moreover have "round64r (of_int (- 1) * 2 powi (?u + 53)) = of_int (- 1) * 2 powi (?u + 53)"
      using u by (intro round64r_fixed) simp_all
    ultimately show ?thesis by metis
  next
    case False
    then have "\<bar>?M\<bar> < 2 ^ 53" using b by linarith
    then show ?thesis unfolding r using u by (rule round64r_fixed)
  qed
qed

lemmas f64_ops = zero_f64_def less_f64_def less_eq_f64_def plus_f64_def minus_f64_def abs_f64_def

lemma round64_not_NaN: "round64 x \<noteq> NaN"
  by (simp add: round64_def Let_def)

lemma not_less_f64: "a \<noteq> NaN \<Longrightarrow> b \<noteq> NaN \<Longrightarrow> \<not> a < b \<longleftrightarrow> b \<le> (a::f64)"
  by (cases a; cases b) (auto simp: f64_ops)

lemma less_imp_le_f64: "a < b \<Longrightarrow> a \<le> (b::f64)"
  by (cases a; cases b) (auto simp: f64_ops)

lemma le_trans_f64: "a \<le> b \<Longrightarrow> b \<le> c \<Longrightarrow> a \<le> (c::f64)"
  by (cases a; cases b; cases c) (auto simp: f64_ops)

lemma le_refl_Fin: "Fin a \<le> Fin a"
  by (simp add: f64_ops)

lemma Fin_le_iff: "Fin a \<le> Fin b \<longleftrightarrow> a \<le> b"
  by (simp add: f64_ops)

lemma Fin_less_iff: "Fin a < Fin b \<longleftrightarrow> a < b"
  by (simp add: f64_ops)

lemma zero_le_Fin_iff: "0 \<le> Fin a \<longleftrightarrow> 0 \<le> a"
  by (simp add: f64_ops)

lemma le_not_NaN: "a \<le> b \<Longrightarrow> a \<noteq> NaN \<and> b \<noteq> (NaN::f64)"
  by (cases a; cases b) (auto simp: f64_ops)

lemma overflow64_pos: "0 < overflow64"
  by (simp add: overflow64_def)

lemma round64_nonneg: "0 \<le> x \<Longrightarrow> 0 \<le> round64 x"
  using round64r_nonneg [of x] overflow64_pos by (auto simp: round64_def Let_def f64_ops)

lemma round64_fixed:
  assumes "round64r x = x" "\<bar>x\<bar> < overflow64"
  shows "round64 x = Fin x"
  using assms by (auto simp: round64_def Let_def)

lemma round64_dyadic:
  assumes "\<bar>m\<bar> < 2 ^ 53" "- 1074 \<le> k" "\<bar>of_int m * 2 powi k\<bar> < overflow64"
  shows "round64 (of_int m * 2 powi k) = Fin (of_int m * 2 powi k)"
  using round64r_fixed [OF assms(1,2)] assms(3) by (rule round64_fixed)

lemma round64_of_int:
  assumes "\<bar>n\<bar> < 2 ^ 53"
  shows "round64 (of_int n) = Fin (of_int n)"
proof -
  have "\<bar>real_of_int n\<bar> < 2 ^ 53" using assms
    by (metis of_int_abs of_int_less_iff of_int_numeral of_int_power)
  also have "(2::real) ^ 53 < 2 ^ 1024" by (rule power_strict_increasing) simp_all
  finally have "\<bar>real_of_int n * 2 powi 0\<bar> < overflow64" by (simp add: overflow64_def)
  from round64_dyadic [OF assms _ this] show ?thesis by simp
qed

text \<open>The result of a rounding is a fixed point of the rounding.\<close>

lemma round64_Fin_fixed: "round64 x = Fin r \<Longrightarrow> round64r r = r"
  by (auto simp: round64_def Let_def round64r_idem split: if_splits)

lemma round64_Fin_mono:
  assumes "x \<le> y" "round64 y = Fin b"
  shows "round64 x \<le> Fin b"
proof -
  have b: "b = round64r y" "round64r y < overflow64"
    using assms(2) by (auto simp: round64_def Let_def split: if_splits)
  have "round64r x \<le> round64r y" using assms(1) by (rule round64r_mono)
  then show ?thesis using b by (auto simp: round64_def Let_def f64_ops)
qed

text \<open>The largest finite value and the first power of two beyond it.\<close>

lemma round64r_max: "round64r ((2 ^ 53 - 1) * 2 ^ 971) = (2 ^ 53 - 1) * 2 ^ 971"
  using round64r_fixed [of "2 ^ 53 - 1" 971] by simp

lemma round64r_overflow64: "round64r overflow64 = overflow64"
  unfolding overflow64_def using round64r_fixed [of 1 1024] by simp

lemma round64_overflow: "overflow64 \<le> x \<Longrightarrow> round64 x = PInf"
  using round64r_mono [of overflow64 x] by (simp add: round64_def round64r_overflow64)

lemma round64_in_range:
  assumes "0 \<le> x" "x \<le> (2 ^ 53 - 1) * 2 ^ 971"
  shows "\<exists>r. round64 x = Fin r \<and> 0 \<le> r \<and> round64r r = r"
proof -
  have "round64r x \<le> (2 ^ 53 - 1) * 2 ^ 971"
    using round64r_mono [OF assms(2)] by (simp only: round64r_max)
  also have "\<dots> < overflow64" by (simp add: overflow64_def)
  finally have lt: "round64r x < overflow64" .
  have ge: "0 \<le> round64r x" using assms(1) by (rule round64r_nonneg)
  have "round64 x = Fin (round64r x)" using lt ge by (simp add: round64_def Let_def)
  then show ?thesis using ge round64r_idem [of x] by blast
qed

lemma round64r_eval:
  assumes "2 powi e \<le> \<bar>x\<bar>" "\<bar>x\<bar> < 2 powi (e + 1)" "- 1022 \<le> e"
  shows "round64r x = of_int (rne (x / 2 powi (e - 52))) * 2 powi (e - 52)"
proof -
  have "0 < \<bar>x\<bar>" using assms(1) powi2_pos [of e] by linarith
  then have x0: "x \<noteq> 0" by simp
  have "expo x = e" using expo_iff [OF x0, of e] assms by simp
  then have "ulp_exp x = e - 52" using assms(3) by (simp add: ulp_exp_def)
  then show ?thesis using x0 by (simp add: round64r_def)
qed



subsection \<open>Evaluating the arithmetic on small numbers\<close>

lemma round64_0: "round64 0 = Fin 0"
  using round64_of_int [of 0] by simp

lemma round64_1: "round64 1 = Fin 1"
  using round64_of_int [of 1] by simp

lemma round64_neg_1: "round64 (- 1) = Fin (- 1)"
  using round64_of_int [of "- 1"] by simp

lemma round64_numeral: "(numeral k :: int) < 2 ^ 53 \<Longrightarrow> round64 (numeral k) = Fin (numeral k)"
  using round64_of_int [of "numeral k"] by simp

lemma round64_neg_numeral:
  "(numeral k :: int) < 2 ^ 53 \<Longrightarrow> round64 (- numeral k) = Fin (- numeral k)"
  using round64_of_int [of "- numeral k"] by simp

lemma round64_half: "(numeral k :: int) < 2 ^ 53 \<Longrightarrow> round64 (numeral k / 2) = Fin (numeral k / 2)"
proof -
  assume k: "(numeral k :: int) < 2 ^ 53"
  have "real_of_int (numeral k) < real_of_int (2 ^ 53)" using k by (simp only: of_int_less_iff)
  then have r: "(numeral k :: real) < 2 ^ 53" by simp
  have "\<bar>real_of_int (numeral k) * 2 powi (- 1)\<bar> = numeral k / 2" by (simp add: power_int_minus)
  also have "\<dots> \<le> (numeral k :: real)"
  proof -
    define x :: real where "x = numeral k"
    have "0 \<le> x" unfolding x_def by simp
    then have "x / 2 \<le> x" by linarith
    then show ?thesis unfolding x_def .
  qed
  also have "\<dots> < 2 ^ 53" by (rule r)
  also have "(2::real) ^ 53 < overflow64"
    unfolding overflow64_def by (rule power_strict_increasing) simp_all
  finally have "\<bar>real_of_int (numeral k) * 2 powi (- 1)\<bar> < overflow64" .
  from round64_dyadic [OF _ _ this] k show ?thesis by (simp add: power_int_minus field_simps)
qed

lemmas f64_eval =
  f64_ops float64_of_int_def round64_0 round64_1 round64_neg_1 round64_numeral round64_neg_numeral round64_half


section \<open>Properties of FullySilent\<close>

lemma not_le_f64: "a \<noteq> NaN \<Longrightarrow> b \<noteq> NaN \<Longrightarrow> \<not> a \<le> b \<longleftrightarrow> b < (a::f64)"
  by (cases a; cases b) (auto simp: f64_ops)

lemma finite64_not_NaN: "finite64 a \<Longrightarrow> a \<noteq> NaN"
  by (cases a) auto

lemma finite64_diff_not_NaN: "finite64 a \<Longrightarrow> finite64 b \<Longrightarrow> a - b \<noteq> NaN"
  by (cases a; cases b) (auto simp: f64_ops round64_not_NaN)

lemma abs_not_NaN: "a \<noteq> NaN \<Longrightarrow> \<bar>a\<bar> \<noteq> (NaN::f64)"
  by (cases a) (auto simp: f64_ops)

text \<open>The loop runs to its end when it meets no gap greater than the tolerance.\<close>

lemma gap_loop_iff:
  "gap_loop tol (End a) xs \<longleftrightarrow>
     (\<forall>i. Suc i < length (a # xs) \<longrightarrow> \<not> Start ((a # xs) ! Suc i) - End ((a # xs) ! i) > tol)"
proof (induction xs arbitrary: a)
  case Nil
  show ?case by simp
next
  case (Cons x xs)
  have "(\<forall>i. Suc i < length (a # x # xs) \<longrightarrow>
            \<not> Start ((a # x # xs) ! Suc i) - End ((a # x # xs) ! i) > tol) \<longleftrightarrow>
        (\<not> Start x - End a > tol \<and>
         (\<forall>i. Suc i < length (x # xs) \<longrightarrow> \<not> Start ((x # xs) ! Suc i) - End ((x # xs) ! i) > tol))"
    (is "?L \<longleftrightarrow> ?R")
  proof
    assume l: ?L
    have "\<not> Start x - End a > tol" using l [rule_format, of 0] by simp
    moreover have "\<not> Start ((x # xs) ! Suc i) - End ((x # xs) ! i) > tol"
      if "Suc i < length (x # xs)" for i
      using l [rule_format, of "Suc i"] that by simp
    ultimately show ?R by blast
  next
    assume r: ?R
    show ?L
    proof (intro allI impI)
      fix i assume "Suc i < length (a # x # xs)"
      then show "\<not> Start ((a # x # xs) ! Suc i) - End ((a # x # xs) ! i) > tol"
        using r by (cases i) auto
    qed
  qed
  then show ?case using Cons.IH [of x] by simp
qed

text \<open>What \<open>FullySilent\<close> decides, for every result and tolerance.\<close>

lemma FullySilent_guards:
  "FullySilent r tol \<longleftrightarrow>
    (\<not> InputDuration r \<le> 0 \<and> Intervals r \<noteq> [] \<and>
     \<not> Start (hd (Intervals r)) > tol \<and>
     (\<forall>i. Suc i < length (Intervals r) \<longrightarrow>
        \<not> Start (Intervals r ! Suc i) - End (Intervals r ! i) > tol) \<and>
     \<not> \<bar>End (last (Intervals r)) - InputDuration r\<bar> > tol)"
proof (cases "Intervals r")
  case Nil
  then show ?thesis by (simp add: FullySilent_def)
next
  case (Cons a xs)
  define G where "G \<longleftrightarrow> (\<forall>i. Suc i < length (a # xs) \<longrightarrow>
        \<not> Start ((a # xs) ! Suc i) - End ((a # xs) ! i) > tol)"
  have g: "gap_loop tol (End a) xs \<longleftrightarrow> G"
    unfolding G_def by (rule gap_loop_iff)
  have l: "(a # xs) ! (length (a # xs) - 1) = last (a # xs)"
    using last_conv_nth [of "a # xs"] by simp
  have "FullySilent r tol \<longleftrightarrow>
     (\<not> InputDuration r \<le> 0 \<and> \<not> Start a > tol \<and> G \<and>
      \<not> \<bar>End (last (a # xs)) - InputDuration r\<bar> > tol)"
    unfolding FullySilent_def Cons Let_def l using g by simp
  then show ?thesis
    unfolding Cons G_def by simp
qed

text \<open>
  C1 as stated fails for a result that holds not-a-number: every guard of
  \<open>FullySilent\<close> is a comparison that not-a-number makes false, so with an input
  duration that is not a number the function returns true, although the duration is not
  greater than 0.
\<close>

theorem FullySilent_NaN_counterexample:
  "(0::f64) \<le> 0 \<and>
   FullySilent \<lparr>Intervals = [\<lparr>Start = 0, End = 0, Duration = 0\<rparr>], InputDuration = NaN\<rparr> 0 \<and>
   \<not> InputDuration \<lparr>Intervals = [\<lparr>Start = 0, End = 0, Duration = 0\<rparr>], InputDuration = NaN\<rparr> > 0"
  by (simp add: FullySilent_def f64_ops)

text \<open>
  C1, amended. For every result \<open>r\<close> whose input duration and interval starts and ends
  are finite (neither not-a-number nor infinite) and every tolerance \<open>tol \<ge> 0\<close>,
  \<open>FullySilent r tol\<close> holds if and only if the input duration is positive, there is at
  least one interval, the first interval starts at most \<open>tol\<close> after 0, for every
  interval after the first its start minus the end of the one before it is at most
  \<open>tol\<close> (an overlap, a negative gap, is accepted), and the absolute value of the end of
  the last interval minus the input duration is at most \<open>tol\<close>; the differences are
  those of \<^verbatim>\<open>float64\<close>, rounded.
\<close>

theorem FullySilent_iff:
  assumes "0 \<le> tol"
    and "finite64 (InputDuration r)"
    and "\<forall>iv\<in>set (Intervals r). finite64 (Start iv) \<and> finite64 (End iv)"
  shows "FullySilent r tol \<longleftrightarrow>
    (InputDuration r > 0 \<and> Intervals r \<noteq> [] \<and>
     Start (hd (Intervals r)) \<le> tol \<and>
     (\<forall>i. Suc i < length (Intervals r) \<longrightarrow>
        Start (Intervals r ! Suc i) - End (Intervals r ! i) \<le> tol) \<and>
     \<bar>End (last (Intervals r)) - InputDuration r\<bar> \<le> tol)"
proof (cases "Intervals r")
  case Nil
  then show ?thesis by (simp add: FullySilent_guards)
next
  case (Cons a xs)
  have t: "tol \<noteq> NaN" using le_not_NaN [OF assms(1)] by simp
  have z: "(0::f64) \<noteq> NaN" by (simp add: zero_f64_def)
  have d: "InputDuration r \<noteq> NaN" using assms(2) by (rule finite64_not_NaN)
  have f: "finite64 (Start (Intervals r ! i)) \<and> finite64 (End (Intervals r ! i))"
    if "i < length (Intervals r)" for i
    using assms(3) that by simp
  have 1: "\<not> InputDuration r \<le> 0 \<longleftrightarrow> InputDuration r > 0"
    using not_le_f64 [OF d z] .
  have 2: "\<not> Start (hd (Intervals r)) > tol \<longleftrightarrow> Start (hd (Intervals r)) \<le> tol"
    using f [of 0] Cons not_less_f64 [OF t finite64_not_NaN, of "Start a"] by simp
  have 3: "\<not> Start (Intervals r ! Suc i) - End (Intervals r ! i) > tol \<longleftrightarrow>
           Start (Intervals r ! Suc i) - End (Intervals r ! i) \<le> tol"
    if "Suc i < length (Intervals r)" for i
  proof -
    have "Start (Intervals r ! Suc i) - End (Intervals r ! i) \<noteq> NaN"
      using f [of "Suc i"] f [of i] that by (intro finite64_diff_not_NaN) simp_all
    then show ?thesis using not_less_f64 [OF t] by blast
  qed
  have "finite64 (End (last (Intervals r)))" using assms(3) Cons by simp
  then have "\<bar>End (last (Intervals r)) - InputDuration r\<bar> \<noteq> NaN"
    using assms(2) by (intro abs_not_NaN finite64_diff_not_NaN)
  then have 4: "\<not> \<bar>End (last (Intervals r)) - InputDuration r\<bar> > tol \<longleftrightarrow>
           \<bar>End (last (Intervals r)) - InputDuration r\<bar> \<le> tol"
    using not_less_f64 [OF t] by blast
  show ?thesis
    unfolding FullySilent_guards 1 2 4 using 3 by blast
qed

theorem FullySilent_iff_witness:
  "(0::f64) \<le> Fin (1 / 1024) \<and>
   FullySilent \<lparr>Intervals = [\<lparr>Start = Fin 0, End = Fin 2, Duration = Fin 2\<rparr>,
                               \<lparr>Start = Fin 2, End = Fin 4, Duration = Fin 2\<rparr>,
                               \<lparr>Start = Fin 4, End = Fin 6, Duration = Fin 2\<rparr>],
                  InputDuration = Fin 6\<rparr> (Fin (1 / 1024)) \<and>
   \<not> FullySilent \<lparr>Intervals = [\<lparr>Start = Fin 0, End = Fin 1, Duration = Fin 1\<rparr>],
                    InputDuration = Fin 5\<rparr> (Fin (1 / 1024))"
proof -
  let ?A = "[\<lparr>Start = Fin 0, End = Fin 2, Duration = Fin 2\<rparr>,
             \<lparr>Start = Fin 2, End = Fin 4, Duration = Fin 2\<rparr>,
             \<lparr>Start = Fin 4, End = Fin 6, Duration = Fin 2\<rparr>]"
  have h: "(0::f64) \<le> Fin (1 / 1024)" by (simp add: f64_ops)
  have a: "\<forall>i. Suc i < length ?A \<longrightarrow> Start (?A ! Suc i) - End (?A ! i) \<le> Fin (1 / 1024)"
  proof (intro allI impI)
    fix i :: nat assume "Suc i < length ?A"
    then have "i = 0 \<or> i = 1" by auto
    then show "Start (?A ! Suc i) - End (?A ! i) \<le> Fin (1 / 1024)"
      by (auto simp: f64_eval)
  qed
  have 1: "FullySilent \<lparr>Intervals = ?A, InputDuration = Fin 6\<rparr> (Fin (1 / 1024))"
    using FullySilent_iff [OF h, of "\<lparr>Intervals = ?A, InputDuration = Fin 6\<rparr>"] a
    by (simp add: f64_eval)
  have 2: "\<not> FullySilent \<lparr>Intervals = [\<lparr>Start = Fin 0, End = Fin 1, Duration = Fin 1\<rparr>],
                    InputDuration = Fin 5\<rparr> (Fin (1 / 1024))"
    using FullySilent_iff [OF h, of "\<lparr>Intervals = [\<lparr>Start = Fin 0, End = Fin 1, Duration = Fin 1\<rparr>],
                    InputDuration = Fin 5\<rparr>"]
    by (simp add: f64_eval)
  show ?thesis using h 1 2 by blast
qed


section \<open>The loop as a fold over the events of the lines\<close>

lemma loop_body_event:
  "loop_body l st =
     (case line_event l of
        Inl err \<Rightarrow> Inl err
      | Inr None \<Rightarrow> Inr st
      | Inr (Some ev) \<Rightarrow> Inr (apply_event st ev))"
  by (simp add: loop_body_def line_event_def Let_def split: sum.splits)

lemma line_loop_events:
  "line_loop ls st =
     (case line_events ls of Inl err \<Rightarrow> Inl err | Inr es \<Rightarrow> Inr (foldl apply_event st es))"
  by (induction ls arbitrary: st)
     (auto simp: loop_body_event split: sum.splits option.splits)

lemma finish_eq:
  "finish st =
     (if currentStart st \<noteq> None \<and> lastProgress st > the (currentStart st) then
        let start = the (currentStart st); end = lastProgress st in
        (intervals st @ [\<lparr>Start = start, End = end, Duration = end - start\<rparr>], lastProgress st, None)
      else (intervals st, lastProgress st, None))"
  by (simp add: finish_def Let_def split: option.splits)

lemma parse_events:
  "parseSilenceOutput text =
     (case events text of
        Inl err \<Rightarrow> ([], 0, Some err)
      | Inr es \<Rightarrow> finish (foldl apply_event initial_state es))"
  unfolding parseSilenceOutput_def events_def initial_state_def [symmetric] finish_eq
  by (simp add: line_loop_events split: sum.splits)

section \<open>What the patterns capture\<close>

lemma star_sound:
  "star C s k = Some res \<Longrightarrow> \<exists>w s'. s = w @ s' \<and> list_all (in_class C) w \<and> k s' = Some res"
proof (induction s)
  case Nil
  then show ?case by simp
next
  case (Cons c cs)
  show ?case
  proof (cases "in_class C c \<and> star C cs k \<noteq> None")
    case True
    then have "star C cs k = Some res" using Cons.prems by auto
    then obtain w s' where "cs = w @ s'" "list_all (in_class C) w" "k s' = Some res"
      using Cons.IH by blast
    then have "c # cs = (c # w) @ s' \<and> list_all (in_class C) (c # w) \<and> k s' = Some res"
      using True by simp
    then show ?thesis by blast
  next
    case False
    then have "k (c # cs) = Some res" using Cons.prems by (auto split: if_splits option.splits)
    then have "c # cs = [] @ (c # cs) \<and> list_all (in_class C) [] \<and> k (c # cs) = Some res" by simp
    then show ?thesis by blast
  qed
qed

lemma no_groups_plain: "groups r = [] \<Longrightarrow> plain r"
  by (induction r) auto

lemma cap_ok_mono: "list_all2 (cap_ok n) gs bs \<Longrightarrow> n \<le> m \<Longrightarrow> list_all2 (cap_ok m) gs bs"
  by (erule list_all2_mono) (auto simp: cap_ok_def)

lemma soundI:
  "s = w @ s' \<Longrightarrow> w \<in> lang r \<Longrightarrow> k s' (caps @ gs) = Some res \<Longrightarrow>
   list_all2 (cap_ok (length s)) gs (groups r) \<Longrightarrow>
   \<exists>w s' gs. s = w @ s' \<and> w \<in> lang r \<and> k s' (caps @ gs) = Some res \<and>
     list_all2 (cap_ok (length s)) gs (groups r)"
  by blast

lemma rmatch_sound:
  "plain r \<Longrightarrow> rmatch r s caps k = Some res \<Longrightarrow>
   \<exists>w s' gs. s = w @ s' \<and> w \<in> lang r \<and> k s' (caps @ gs) = Some res \<and>
     list_all2 (cap_ok (length s)) gs (groups r)"
proof (induction r arbitrary: s caps k res)
  case (Lit l)
  then have t: "take (length l) s = l" and k: "k (drop (length l) s) (caps @ []) = Some res"
    by (auto split: if_splits)
  have "s = l @ drop (length l) s" using append_take_drop_id [of "length l" s] t by simp
  then show ?case using k by (intro soundI [where gs = "[]"]) auto
next
  case (Class C)
  then obtain c cs where "s = [c] @ cs" "in_class C c" "k cs (caps @ []) = Some res"
    by (auto split: list.splits if_splits)
  then show ?case by (intro soundI [where gs = "[]" and w = "[c]"]) auto
next
  case (Star C)
  then obtain w s' where "s = w @ s'" "list_all (in_class C) w" "k s' (caps @ []) = Some res"
    using star_sound [of C s "\<lambda>s'. k s' caps" res] by auto
  then show ?case by (intro soundI [where gs = "[]" and w = w]) auto
next
  case (Plus C)
  then obtain c cs where s: "s = c # cs" "in_class C c" "star C cs (\<lambda>s'. k s' caps) = Some res"
    by (auto split: list.splits if_splits)
  then obtain w s' where "cs = w @ s'" "list_all (in_class C) w" "k s' (caps @ []) = Some res"
    using star_sound [of C cs "\<lambda>s'. k s' caps" res] by auto
  then show ?case using s by (intro soundI [where gs = "[]" and w = "c # w"]) auto
next
  case (Opt r)
  have g: "groups r = []" using Opt.prems(1) by simp
  show ?case
  proof (cases "rmatch r s caps k")
    case None
    then have "k s (caps @ []) = Some res" using Opt.prems(2) g by simp
    then show ?thesis using g by (intro soundI [where gs = "[]" and w = "[]"]) auto
  next
    case (Some m)
    then have "rmatch r s caps k = Some res" using Opt.prems(2) by simp
    from Opt.IH [OF no_groups_plain [OF g] this]
    obtain w s' gs where "s = w @ s'" "w \<in> lang r" "k s' (caps @ gs) = Some res"
      "list_all2 (cap_ok (length s)) gs (groups r)" by blast
    then show ?thesis by (intro soundI [where gs = gs and w = w]) auto
  qed
next
  case (Seq a b)
  have pa: "plain a" and pb: "plain b" using Seq.prems(1) by auto
  have "rmatch a s caps (\<lambda>s' caps'. rmatch b s' caps' k) = Some res" using Seq.prems(2) by simp
  from Seq.IH(1) [OF pa this]
  obtain w1 s1 gs1 where 1: "s = w1 @ s1" "w1 \<in> lang a" "rmatch b s1 (caps @ gs1) k = Some res"
    "list_all2 (cap_ok (length s)) gs1 (groups a)" by blast
  from Seq.IH(2) [OF pb 1(3)]
  obtain w2 s2 gs2 where 2: "s1 = w2 @ s2" "w2 \<in> lang b" "k s2 ((caps @ gs1) @ gs2) = Some res"
    "list_all2 (cap_ok (length s1)) gs2 (groups b)" by blast
  have "list_all2 (cap_ok (length s)) gs2 (groups b)"
    using cap_ok_mono [OF 2(4), of "length s"] 1(1) by simp
  then have "list_all2 (cap_ok (length s)) (gs1 @ gs2) (groups (Seq a b))"
    using 1(4) by (simp add: list_all2_appendI)
  moreover have "s = (w1 @ w2) @ s2" "w1 @ w2 \<in> lang (Seq a b)" "k s2 (caps @ gs1 @ gs2) = Some res"
    using 1 2 by auto
  ultimately show ?case by (intro soundI [where gs = "gs1 @ gs2" and w = "w1 @ w2" and s' = s2])
next
  case (Group r)
  have g: "groups r = []" using Group.prems(1) by simp
  have "rmatch r s caps (\<lambda>s' caps'. k s' (caps' @ [take (length s - length s') s])) = Some res"
    using Group.prems(2) by simp
  from Group.IH [OF no_groups_plain [OF g] this]
  obtain w s' where 1: "s = w @ s'" "w \<in> lang r" "k s' (caps @ [take (length s - length s') s]) = Some res"
    using g by auto
  have "take (length s - length s') s = w" using 1(1) by simp
  then have "k s' (caps @ [w]) = Some res" "list_all2 (cap_ok (length s)) [w] (groups (Group r))"
    using 1 g by (auto simp: cap_ok_def)
  then show ?case using 1 by (intro soundI [where gs = "[w]" and w = w and s' = s']) auto
qed

lemma fss_sound:
  "plain r \<Longrightarrow> FindStringSubmatch r s = m \<Longrightarrow>
   m = [] \<or> (\<exists>w gs. m = w # gs \<and> list_all2 (cap_ok (length s)) gs (groups r))"
proof (induction s)
  case Nil
  show ?case
  proof (cases "rmatch r [] [] (\<lambda>s' caps. Some ([] # caps))")
    case None
    then show ?thesis using Nil by simp
  next
    case (Some a)
    from rmatch_sound [OF Nil(1) Some] show ?thesis using Nil(2) Some by auto
  qed
next
  case (Cons c cs)
  show ?case
  proof (cases "rmatch r (c # cs) [] (\<lambda>s' caps. Some (take (length (c # cs) - length s') (c # cs) # caps))")
    case None
    then have "FindStringSubmatch r cs = m" using Cons.prems(2) by simp
    from Cons.IH [OF Cons.prems(1) this] show ?thesis
      using cap_ok_mono [of "length cs" _ _ "length (c # cs)"] by auto
  next
    case (Some a)
    from rmatch_sound [OF Cons.prems(1) Some] show ?thesis using Cons.prems(2) Some by auto
  qed
qed

section \<open>A line with a number out of range\<close>

lemma star_all:
  "list_all (in_class C) ds \<Longrightarrow> rest = [] \<or> \<not> in_class C (hd rest) \<Longrightarrow> k rest = Some r \<Longrightarrow>
   star C (ds @ rest) k = Some r"
proof (induction ds)
  case Nil
  then show ?case by (cases rest) auto
next
  case (Cons d ds)
  then show ?case by simp
qed

lemma digit_not_space: "isDigit c \<Longrightarrow> \<not> in_class Space c"
  by (auto simp: isDigit_def)

lemma fss_start_digits:
  assumes "ds \<noteq> []" "list_all isDigit ds"
  shows "FindStringSubmatch silenceStartPattern (''silence_start: '' @ ds) = [''silence_start: '' @ ds, ds]"
proof -
  obtain d ds' where ds: "ds = d # ds'" using assms(1) by (cases ds) auto
  have d: "isDigit d" "list_all (in_class Digit) ds'" using assms(2) ds by (auto simp: list_all_iff)
  have s: "star Digit (ds' @ []) k = Some r" if "k [] = Some r" for k :: "string \<Rightarrow> string list option" and r
    using star_all [OF d(2), of "[]" k r] that by simp
  show ?thesis
    unfolding silenceStartPattern_def number_def ds
    using d(1) digit_not_space [OF d(1)]
    by (simp add: s [simplified])
qed

lemma foldl_zeros: "foldl (\<lambda>a c. 10 * a + digit_val c) a (replicate n (CHR ''0'')) = a * 10 ^ n"
  by (induction n arbitrary: a) (auto simp: digit_val_def)

lemma digit_val_1: "digit_val (CHR ''1'') = 1"
  by (simp add: digit_val_def)

lemma digits_val_one_zeros: "digits_val (CHR ''1'' # replicate n (CHR ''0'')) = 10 ^ n"
  by (simp add: digits_val_def foldl_zeros digit_val_1)

lemma takeWhile_all: "list_all P xs \<Longrightarrow> takeWhile P xs = xs"
  by (induction xs) auto

lemma dropWhile_all: "list_all P xs \<Longrightarrow> dropWhile P xs = []"
  by (induction xs) auto

lemma ParseFloat_digits:
  "ds \<noteq> [] \<Longrightarrow> list_all isDigit ds \<Longrightarrow> ParseFloat ds = float64_range (real (digits_val ds))"
  by (simp add: ParseFloat_def takeWhile_all dropWhile_all)

lemma big_range: "float64_range (real (10 ^ 400)) = Inl ErrRange"
proof -
  have "overflow64 \<le> real (10 ^ 400)" by (simp add: overflow64_def)
  then have "round64 (real (10 ^ 400)) = PInf" by (rule round64_overflow)
  then show ?thesis by (simp add: float64_range_def)
qed

lemma all_digits_big: "list_all isDigit (CHR ''1'' # replicate n (CHR ''0''))"
  by (simp add: list_all_iff isDigit_def)

text \<open>A string that begins and ends with ASCII bytes that are not white space is not trimmed.\<close>

lemma trimLeft_id:
  assumes "of_char a < (128::nat)" "\<not> asciiSpace a"
  shows "trimLeft (a # s) = a # s"
proof -
  have n: "a \<noteq> CHR 0xC2" "a \<noteq> CHR 0xE1" "a \<noteq> CHR 0xE2" "a \<noteq> CHR 0xE3"
    using assms(1) by auto
  show ?thesis
  proof (cases s)
    case Nil
    then show ?thesis using assms(2) by simp
  next
    case (Cons b t)
    then show ?thesis using assms(2) n by (cases t) (simp_all add: space2_def space3_def)
  qed
qed

lemma trimLeftRev_id:
  assumes "of_char a < (128::nat)" "\<not> asciiSpace a"
  shows "trimLeftRev (a # s) = a # s"
proof -
  have n: "a \<noteq> CHR 0x85" "a \<noteq> CHR 0xA0" "a \<noteq> CHR 0x80" "a \<noteq> CHR 0xA8" "a \<noteq> CHR 0xA9"
    "a \<noteq> CHR 0xAF" "a \<noteq> CHR 0x9F" "\<not> (0x80::nat) \<le> of_char a"
    using assms(1) by auto
  show ?thesis
  proof (cases s)
    case Nil
    then show ?thesis using assms(2) by simp
  next
    case (Cons b t)
    then show ?thesis using assms(2) n by (cases t) (simp_all add: space2_def space3_def)
  qed
qed

lemma TrimSpace_id:
  assumes "s \<noteq> []" "of_char (hd s) < (128::nat)" "\<not> asciiSpace (hd s)"
    "of_char (last s) < (128::nat)" "\<not> asciiSpace (last s)"
  shows "TrimSpace s = s"
proof -
  obtain a t where s: "s = a # t" using assms(1) by (cases s) auto
  have 1: "trimLeft s = s" using assms(2,3) unfolding s by (simp add: trimLeft_id)
  obtain b u where r: "rev s = b # u" using assms(1) by (cases "rev s") auto
  then have "b = last s" using assms(1) by (metis hd_rev list.sel(1))
  then have 2: "trimLeftRev (rev s) = rev s" using assms(4,5) unfolding r by (simp add: trimLeftRev_id)
  show ?thesis by (simp add: TrimSpace_def 1 2)
qed

lemma big_line_event:
  "line_event (''silence_start: 1'' @ replicate 400 (CHR ''0'')) = Inl (ParseSilenceStart ErrRange)"
proof -
  let ?ds = "CHR ''1'' # replicate 400 (CHR ''0'')"
  have e: "''silence_start: 1'' @ replicate 400 (CHR ''0'') = ''silence_start: '' @ ?ds" by simp
  have t: "TrimSpace (''silence_start: '' @ ?ds) = ''silence_start: '' @ ?ds"
    by (rule TrimSpace_id) (simp_all add: asciiSpace_def)
  have f: "FindStringSubmatch silenceStartPattern (''silence_start: '' @ ?ds) = [''silence_start: '' @ ?ds, ?ds]"
    by (rule fss_start_digits) (simp, rule all_digits_big)
  have p: "ParseFloat ?ds = Inl ErrRange"
    using ParseFloat_digits [of ?ds] all_digits_big [of 400] big_range
    by (simp add: digits_val_one_zeros)
  show ?thesis
    unfolding e line_event_def Let_def t f using p by simp
qed

section \<open>Lines and the loop\<close>

lemma Split_not_Nil: "Split s sep \<noteq> []"
  by (induction s) (auto split: list.splits)

lemma Split_append: "Split (a @ sep # b) sep = Split a sep @ Split b sep"
proof (induction a)
  case Nil
  show ?case by simp
next
  case (Cons c a)
  obtain x xs where x: "Split a sep = x # xs" using Split_not_Nil [of a sep] by (cases "Split a sep") auto
  show ?case using Cons x by simp
qed

lemma Split_line: "sep \<notin> set l \<Longrightarrow> Split l sep = [l]"
  by (induction l) auto

lemma line_events_append:
  "line_events (xs @ ys) =
     (case line_events xs of
        Inl err \<Rightarrow> Inl err
      | Inr es \<Rightarrow> (case line_events ys of Inl err \<Rightarrow> Inl err | Inr es' \<Rightarrow> Inr (es @ es')))"
  by (induction xs) (auto split: sum.splits option.splits)

lemma line_loop_append:
  "line_loop (xs @ ys) st =
     (case line_loop xs st of Inl err \<Rightarrow> Inl err | Inr st' \<Rightarrow> line_loop ys st')"
  by (induction xs arbitrary: st) (auto split: sum.splits)

lemma line_loop_first_error:
  "\<forall>x\<in>set pre. \<exists>ev. line_event x = Inr ev \<Longrightarrow> line_event l = Inl err \<Longrightarrow>
   line_loop (pre @ l # post) st = Inl err"
proof (induction pre arbitrary: st)
  case Nil
  then show ?case by (simp add: loop_body_event)
next
  case (Cons x pre)
  then obtain ev where "line_event x = Inr ev" by auto
  then show ?case using Cons by (cases ev) (auto simp: loop_body_event)
qed


section \<open>The events of some lines\<close>

lemmas eval_defs =
  line_event_def TrimSpace_def asciiSpace_def space2_def space3_def silenceStartPattern_def
  silenceEndPattern_def progressTimePattern_def two_digits_def number_def isDigit_def
  ParseFloat_def Atoi_def float64_range_def digits_val_def digit_val_def f64_eval

lemma ev_end: "line_event ''silence_end: 5 | silence_duration: 2'' = Inr (Some (SilenceEnd (Fin 5) (Fin 2)))"
  by (simp add: eval_defs)

lemma ev_start: "line_event ''silence_start: 1'' = Inr (Some (SilenceStart (Fin 1)))"
  by (simp add: eval_defs)

lemma ev_progress: "line_event ''time=00:00:05.00'' = Inr (Some (Progress (Fin 5)))"
  by (simp add: eval_defs)

lemma ev_none: "line_event ''ffmpeg version 6.0'' = Inr None"
  by (simp add: eval_defs)

text \<open>
  A marker followed by text that is not a number matches no pattern: the line has no
  event, and no error.
\<close>

lemma ev_marker_without_number: "line_event ''silence_start: abc'' = Inr None"
  by (simp add: eval_defs)


text \<open>
  After a marker, digits followed by other text: the pattern captures the digits, and
  the line is an event with that number.
\<close>

lemma ev_number_prefix: "line_event ''silence_start: 12abc'' = Inr (Some (SilenceStart (Fin 12)))"
  by (simp add: eval_defs)

section \<open>The loop on a silence-end line\<close>

text \<open>
  C3. When the loop comes to a line that is a \<open>SilenceEnd e d\<close> event, in the state \<open>st\<close>
  the lines before it have led to: with no pending start it appends the interval from
  \<open>e - d\<close> to \<open>e\<close> of duration \<open>d\<close>; with a pending start \<open>t\<close> it appends the interval
  from \<open>t\<close> to \<open>e\<close> of duration \<open>d\<close>; in both cases it goes on with no pending start.
\<close>

theorem silence_end_step:
  assumes "line_loop pre st0 = Inr st"
    and "line_event l = Inr (Some (SilenceEnd e d))"
  shows "(currentStart st = None \<longrightarrow>
            line_loop (pre @ l # post) st0 =
              line_loop post (st\<lparr>intervals := intervals st @ [\<lparr>Start = e - d, End = e, Duration = d\<rparr>],
                                  currentStart := None\<rparr>)) \<and>
         (\<forall>t. currentStart st = Some t \<longrightarrow>
            line_loop (pre @ l # post) st0 =
              line_loop post (st\<lparr>intervals := intervals st @ [\<lparr>Start = t, End = e, Duration = d\<rparr>],
                                  currentStart := None\<rparr>))"
  using assms by (simp add: line_loop_append loop_body_event)


theorem silence_end_step_witness:
  "line_loop [''silence_start: 1'', ''silence_end: 5 | silence_duration: 2''] initial_state =
     Inr \<lparr>intervals = [\<lparr>Start = Fin 1, End = Fin 5, Duration = Fin 2\<rparr>],
          currentStart = None, lastProgress = 0\<rparr> \<and>
   line_loop [''silence_end: 5 | silence_duration: 2''] initial_state =
     Inr \<lparr>intervals = [\<lparr>Start = Fin 3, End = Fin 5, Duration = Fin 2\<rparr>],
          currentStart = None, lastProgress = 0\<rparr>"
proof -
  have 1: "line_loop [''silence_start: 1''] initial_state = Inr (initial_state\<lparr>currentStart := Some (Fin 1)\<rparr>)"
    by (simp add: loop_body_event ev_start)
  have 2: "line_loop [] initial_state = Inr initial_state" by simp
  show ?thesis
    using silence_end_step [OF 1 ev_end, of "[]"] silence_end_step [OF 2 ev_end, of "[]"]
    by (simp add: initial_state_def f64_eval)
qed


section \<open>A line whose number does not parse\<close>

lemma parse_lines:
  "Split text newline = ls \<Longrightarrow> line_events ls = Inr es \<Longrightarrow>
   parseSilenceOutput text = finish (foldl apply_event initial_state es)"
  by (simp add: parse_events events_def)

lemma parse_line:
  assumes "newline \<notin> set l" "line_event l = Inr ev"
  shows "parseSilenceOutput l =
           finish (foldl apply_event initial_state (case ev of None \<Rightarrow> [] | Some x \<Rightarrow> [x]))"
  using parse_lines [OF Split_line [OF assms(1)], of "case ev of None \<Rightarrow> [] | Some x \<Rightarrow> [x]"] assms(2)
  by simp

text \<open>
  C4 as stated fails: malformed numeric text after a marker is not a parse failure.
  When no digit follows the marker, the line matches no pattern and is skipped; when
  digits are followed by other text, the pattern captures the digits and the rest is
  ignored. In both cases the parser returns no error.
\<close>

theorem malformed_number_counterexample:
  "line_event ''silence_start: abc'' = Inr None \<and>
   parseSilenceOutput ''silence_start: abc'' = ([], 0, None) \<and>
   line_event ''silence_start: 12abc'' = Inr (Some (SilenceStart (Fin 12))) \<and>
   parseSilenceOutput ''silence_start: 12abc'' = ([], 0, None)"
proof -
  have n: "newline \<notin> set ''silence_start: abc''" "newline \<notin> set ''silence_start: 12abc''"
    by (simp_all add: newline_def)
  have 1: "parseSilenceOutput ''silence_start: abc'' = ([], 0, None)"
    unfolding parse_line [OF n(1) ev_marker_without_number]
    by (simp add: finish_def initial_state_def)
  have 2: "parseSilenceOutput ''silence_start: 12abc'' = ([], 0, None)"
    unfolding parse_line [OF n(2) ev_number_prefix]
    by (simp add: finish_def initial_state_def f64_eval)
  show ?thesis using 1 2 ev_marker_without_number ev_number_prefix by blast
qed

text \<open>
  C4, amended. A line fails when its pattern matched (the first of start, end, progress
  that matches the trimmed line) and the conversion of a captured number returned an
  error, which only a decimal out of the range of \<^verbatim>\<open>float64\<close> does: its event is
  \<open>Inl err\<close>. When the text has such a line, \<open>parseSilenceOutput\<close> returns, at the first such
  line, the error of that line with no intervals (Go's \<^verbatim>\<open>nil\<close>) and the duration 0.
  Malformed numeric text after a marker is not such a line.
\<close>

theorem malformed_line_fails:
  assumes "Split text newline = pre @ l # post"
    and "\<forall>x\<in>set pre. \<exists>ev. line_event x = Inr ev"
    and "line_event l = Inl err"
  shows "parseSilenceOutput text = ([], 0, Some err)"
  using line_loop_first_error [OF assms(2,3), of post] assms(1)
  by (simp add: parseSilenceOutput_def)

lemma newline_not_in_big: "newline \<notin> set (''silence_start: 1'' @ replicate 400 (CHR ''0''))"
  by (auto simp: newline_def)

theorem malformed_line_fails_witness:
  "parseSilenceOutput (''silence_end: 5 | silence_duration: 2'' @ newline #
      (''silence_start: 1'' @ replicate 400 (CHR ''0'')) @ newline # ''time=00:00:05.00'')
   = ([], 0, Some (ParseSilenceStart ErrRange))"
proof -
  let ?big = "''silence_start: 1'' @ replicate 400 (CHR ''0'')"
  have s: "Split (''silence_end: 5 | silence_duration: 2'' @ newline # ?big @ newline # ''time=00:00:05.00'') newline
           = [''silence_end: 5 | silence_duration: 2''] @ ?big # [''time=00:00:05.00'']"
    using Split_line [OF newline_not_in_big]
    by (simp only: Split_append) (simp add: newline_def)
  have p: "\<forall>x\<in>set [''silence_end: 5 | silence_duration: 2'']. \<exists>ev. line_event x = Inr ev"
    using ev_end by simp
  show ?thesis
    by (rule malformed_line_fails [OF s p big_line_event])
qed

section \<open>The empty text and lines that match no pattern\<close>


lemma no_match_no_event:
  assumes "FindStringSubmatch silenceStartPattern (TrimSpace l) = []"
    and "FindStringSubmatch silenceEndPattern (TrimSpace l) = []"
    and "FindStringSubmatch progressTimePattern (TrimSpace l) = []"
  shows "line_event l = Inr None"
  using assms by (simp add: line_event_def Let_def)

lemma parse_lines_skip:
  assumes "line_event l = Inr None"
  shows "line_loop (pre @ l # post) st = line_loop (pre @ post) st"
  using assms by (simp add: line_loop_append loop_body_event split: sum.splits)

text \<open>
  C8. The empty text gives no interval, the duration 0 and no error. A line that
  matches none of the three patterns has no event, and the result is the same with the
  line as without it, wherever the line stands: alone, first, last or between others.
\<close>

theorem empty_and_ignored_lines:
  "parseSilenceOutput [] = ([], 0, None) \<and>
   (\<forall>l. newline \<notin> set l \<longrightarrow>
      FindStringSubmatch silenceStartPattern (TrimSpace l) = [] \<longrightarrow>
      FindStringSubmatch silenceEndPattern (TrimSpace l) = [] \<longrightarrow>
      FindStringSubmatch progressTimePattern (TrimSpace l) = [] \<longrightarrow>
      line_event l = Inr None \<and>
      parseSilenceOutput l = ([], 0, None) \<and>
      (\<forall>a b. parseSilenceOutput (a @ newline # l @ newline # b) = parseSilenceOutput (a @ newline # b) \<and>
             parseSilenceOutput (l @ newline # b) = parseSilenceOutput b \<and>
             parseSilenceOutput (a @ newline # l) = parseSilenceOutput a))"
proof (intro conjI allI impI)
  show "parseSilenceOutput [] = ([], 0, None)"
    by (simp add: parseSilenceOutput_def loop_body_def TrimSpace_def)
next
  fix l
  assume nl: "newline \<notin> set l"
    and "FindStringSubmatch silenceStartPattern (TrimSpace l) = []"
    and "FindStringSubmatch silenceEndPattern (TrimSpace l) = []"
    and "FindStringSubmatch progressTimePattern (TrimSpace l) = []"
  then show ev: "line_event l = Inr None" by (simp add: no_match_no_event)
  show "parseSilenceOutput l = ([], 0, None)"
    using parse_lines_skip [OF ev, of "[]" "[]"]
    by (simp add: parseSilenceOutput_def Split_line [OF nl])
  fix a b
  have 1: "Split (a @ newline # l @ newline # b) newline = Split a newline @ l # Split b newline"
    by (simp add: Split_append Split_line [OF nl])
  have 2: "Split (l @ newline # b) newline = [] @ l # Split b newline"
    by (simp add: Split_append Split_line [OF nl])
  have 3: "Split (a @ newline # l) newline = Split a newline @ l # []"
    by (simp add: Split_append Split_line [OF nl])
  show "parseSilenceOutput (a @ newline # l @ newline # b) = parseSilenceOutput (a @ newline # b)"
    unfolding parseSilenceOutput_def 1 parse_lines_skip [OF ev] by (simp add: Split_append)
  show "parseSilenceOutput (l @ newline # b) = parseSilenceOutput b"
    unfolding parseSilenceOutput_def 2 parse_lines_skip [OF ev] by simp
  show "parseSilenceOutput (a @ newline # l) = parseSilenceOutput a"
    unfolding parseSilenceOutput_def 3 parse_lines_skip [OF ev] by simp
qed

lemma fss_none:
  "FindStringSubmatch silenceStartPattern (TrimSpace ''ffmpeg version 6.0'') = []"
  "FindStringSubmatch silenceEndPattern (TrimSpace ''ffmpeg version 6.0'') = []"
  "FindStringSubmatch progressTimePattern (TrimSpace ''ffmpeg version 6.0'') = []"
  by (simp_all add: eval_defs)

lemma parse_scenario_C:
  "parseSilenceOutput (''silence_start: 0.000000'' @ newline # ''time=00:00:05.00'') =
     ([\<lparr>Start = Fin 0, End = Fin 5, Duration = Fin 5\<rparr>], Fin 5, None)"
proof -
  have e: "line_event ''silence_start: 0.000000'' = Inr (Some (SilenceStart (Fin 0)))"
    by (simp add: eval_defs)
  have s: "Split (''silence_start: 0.000000'' @ newline # ''time=00:00:05.00'') newline =
       [''silence_start: 0.000000'', ''time=00:00:05.00'']"
    by (simp only: Split_append) (simp add: newline_def)
  have ev: "line_events [''silence_start: 0.000000'', ''time=00:00:05.00''] = Inr [SilenceStart (Fin 0), Progress (Fin 5)]"
    by (simp add: e ev_progress)
  show ?thesis
    unfolding parse_lines [OF s ev] by (simp add: finish_def initial_state_def f64_eval)
qed

theorem empty_and_ignored_lines_witness:
  "parseSilenceOutput [] = ([], 0, None) \<and>
   parseSilenceOutput ''ffmpeg version 6.0'' = ([], 0, None) \<and>
   parseSilenceOutput (''silence_start: 0.000000'' @ newline # ''ffmpeg version 6.0'' @ newline # ''time=00:00:05.00'') =
     ([\<lparr>Start = Fin 0, End = Fin 5, Duration = Fin 5\<rparr>], Fin 5, None)"
proof -
  have nl: "newline \<notin> set ''ffmpeg version 6.0''" by (simp add: newline_def)
  have e: "parseSilenceOutput [] = ([], 0, None)"
    using empty_and_ignored_lines by (rule conjunct1)
  have r: "line_event ''ffmpeg version 6.0'' = Inr None \<and>
      parseSilenceOutput ''ffmpeg version 6.0'' = ([], 0, None) \<and>
      (\<forall>a b. parseSilenceOutput (a @ newline # ''ffmpeg version 6.0'' @ newline # b) = parseSilenceOutput (a @ newline # b) \<and>
             parseSilenceOutput (''ffmpeg version 6.0'' @ newline # b) = parseSilenceOutput b \<and>
             parseSilenceOutput (a @ newline # ''ffmpeg version 6.0'') = parseSilenceOutput a)"
    using empty_and_ignored_lines [THEN conjunct2, rule_format, OF nl fss_none] .
  then have "parseSilenceOutput (''silence_start: 0.000000'' @ newline # ''ffmpeg version 6.0'' @ newline # ''time=00:00:05.00'')
      = parseSilenceOutput (''silence_start: 0.000000'' @ newline # ''time=00:00:05.00'')"
    by blast
  then show ?thesis using e r parse_scenario_C by (simp only:)
qed

section \<open>DetectSilence validates the minimum duration\<close>

text \<open>
  C9. With \<open>MinSilenceDuration \<le> 0\<close>, whatever the detector, the context and the input
  path, \<open>DetectSilence\<close> returns an error and the zero result, and its trace is empty:
  the runner was not invoked and no output was parsed.
\<close>

theorem DetectSilence_rejects_duration:
  assumes "MinSilenceDuration options \<le> 0"
  shows "DetectSilence FormatFloat d ctx inputPath options =
           ([], \<lparr>Intervals = [], InputDuration = 0\<rparr>,
            Some (if inputPath = [] then InputPathRequired
                  else MinDurationNotPositive (MinSilenceDuration options)))"
  using assms by (simp add: DetectSilence_def)

theorem DetectSilence_rejects_duration_witness:
  "MinSilenceDuration \<lparr>NoiseLevel = Fin (- 30), MinSilenceDuration = 0\<rparr> \<le> 0 \<and>
   DetectSilence (\<lambda>x. ''0'') \<lparr>ffmpegPath = ''ffmpeg'', run = (\<lambda>(c::unit) n a. (''silence_start: 0'', None :: unit option))\<rparr>
      () ''video.mp4'' \<lparr>NoiseLevel = Fin (- 30), MinSilenceDuration = 0\<rparr> =
     ([], \<lparr>Intervals = [], InputDuration = 0\<rparr>, Some (MinDurationNotPositive 0))"
  using DetectSilence_rejects_duration [of "\<lparr>NoiseLevel = Fin (- 30), MinSilenceDuration = 0\<rparr>" "\<lambda>x. ''0''"
      "\<lparr>ffmpegPath = ''ffmpeg'', run = (\<lambda>(c::unit) n a. (''silence_start: 0'', None :: unit option))\<rparr>" "()" "''video.mp4''"]
  by (simp add: f64_ops)


section \<open>The numbers the patterns capture\<close>

lemma plain_patterns:
  "plain silenceStartPattern" "plain silenceEndPattern" "plain progressTimePattern"
  by (simp_all add: silenceStartPattern_def silenceEndPattern_def progressTimePattern_def
      number_def two_digits_def)

lemma groups_patterns:
  "groups silenceStartPattern = [number]"
  "groups silenceEndPattern = [number, number]"
  "groups progressTimePattern = [two_digits, two_digits, number]"
  by (simp_all add: silenceStartPattern_def silenceEndPattern_def progressTimePattern_def
      number_def two_digits_def)

lemma digits_val_bound_aux:
  "list_all isDigit ds \<Longrightarrow> foldl (\<lambda>a c. 10 * a + digit_val c) a ds < (a + 1) * 10 ^ length ds"
proof (induction ds arbitrary: a)
  case Nil
  show ?case by simp
next
  case (Cons c ds)
  have "isDigit c" using Cons.prems by simp
  then have c: "digit_val c \<le> 9" unfolding isDigit_def digit_val_def by linarith
  have "foldl (\<lambda>a c. 10 * a + digit_val c) (10 * a + digit_val c) ds
          < (10 * a + digit_val c + 1) * 10 ^ length ds"
    using Cons.IH [of "10 * a + digit_val c"] Cons.prems by simp
  also have "\<dots> \<le> (10 * (a + 1)) * 10 ^ length ds"
    using c by (intro mult_right_mono) auto
  also have "\<dots> = (a + 1) * 10 ^ length (c # ds)" by (simp add: algebra_simps)
  finally show ?case by simp
qed

lemma digits_val_bound: "list_all isDigit ds \<Longrightarrow> digits_val ds < 10 ^ length ds"
  using digits_val_bound_aux [of ds 0] by (simp add: digits_val_def)

lemma dot_not_digit: "\<not> isDigit (CHR ''.'')"
  by (simp add: isDigit_def)

lemma in_class_Digit: "in_class Digit = isDigit"
  by (rule ext) simp

lemma lang_number:
  assumes "w \<in> lang number"
  shows "\<exists>ip. ip \<noteq> [] \<and> list_all isDigit ip \<and>
           (w = ip \<or> (\<exists>fp. fp \<noteq> [] \<and> list_all isDigit fp \<and> w = ip @ CHR ''.'' # fp))"
proof -
  from assms obtain u v where w: "w = u @ v" and u: "u \<noteq> []" "list_all isDigit u"
    and v: "v = [] \<or> (\<exists>fp. v = CHR ''.'' # fp \<and> fp \<noteq> [] \<and> list_all isDigit fp)"
    by (auto simp: number_def in_class_Digit)
  from v show ?thesis
  proof
    assume "v = []"
    then show ?thesis using w u by (intro exI [of _ u]) simp
  next
    assume "\<exists>fp. v = CHR ''.'' # fp \<and> fp \<noteq> [] \<and> list_all isDigit fp"
    then obtain fp where "v = CHR ''.'' # fp" "fp \<noteq> []" "list_all isDigit fp" by blast
    then show ?thesis using w u by (intro exI [of _ u]) auto
  qed
qed

lemma takeWhile_digits_dot:
  "list_all isDigit ip \<Longrightarrow> takeWhile isDigit (ip @ CHR ''.'' # fp) = ip"
  by (induction ip) (auto simp: dot_not_digit)

lemma dropWhile_digits_dot:
  "list_all isDigit ip \<Longrightarrow> dropWhile isDigit (ip @ CHR ''.'' # fp) = CHR ''.'' # fp"
  by (induction ip) (auto simp: dot_not_digit)

lemma number_ParseFloat:
  assumes "w \<in> lang number"
  shows "\<exists>v. 0 \<le> v \<and> v < 10 ^ length w \<and> ParseFloat w = float64_range v"
proof -
  from lang_number [OF assms] obtain ip where ip: "ip \<noteq> []" "list_all isDigit ip"
    and w: "w = ip \<or> (\<exists>fp. fp \<noteq> [] \<and> list_all isDigit fp \<and> w = ip @ CHR ''.'' # fp)"
    by blast
  have ipb: "real (digits_val ip) \<le> 10 ^ length ip - 1"
  proof -
    have "digits_val ip + 1 \<le> 10 ^ length ip" using digits_val_bound [OF ip(2)] by simp
    then have "real (digits_val ip + 1) \<le> real (10 ^ length ip)" by (rule of_nat_mono)
    then show ?thesis by simp
  qed
  from w show ?thesis
  proof
    assume e: "w = ip"
    have "ParseFloat w = float64_range (real (digits_val ip))"
      using ip e by (simp add: ParseFloat_digits)
    moreover have "real (digits_val ip) < 10 ^ length w" unfolding e using ipb by linarith
    ultimately show ?thesis by (intro exI [of _ "real (digits_val ip)"]) simp
  next
    assume "\<exists>fp. fp \<noteq> [] \<and> list_all isDigit fp \<and> w = ip @ CHR ''.'' # fp"
    then obtain fp where fp: "fp \<noteq> []" "list_all isDigit fp" and e: "w = ip @ CHR ''.'' # fp"
      by blast
    let ?v = "real (digits_val ip) + real (digits_val fp) / 10 ^ length fp"
    have p: "ParseFloat w = float64_range ?v"
      using ip fp e
      by (simp add: ParseFloat_def takeWhile_digits_dot dropWhile_digits_dot)
    have "real (digits_val fp) < real (10 ^ length fp)"
      using digits_val_bound [OF fp(2)] by (simp only: of_nat_less_iff)
    then have f: "real (digits_val fp) / 10 ^ length fp < 1" by simp
    have "?v < 10 ^ length ip" using ipb f by linarith
    also have "(10::real) ^ length ip \<le> 10 ^ length w"
      using e by (intro power_increasing) auto
    finally have "?v < 10 ^ length w" .
    moreover have "0 \<le> ?v" by simp
    ultimately show ?thesis using p by (intro exI [of _ ?v]) simp
  qed
qed

lemma two_digits_Atoi:
  assumes "w \<in> lang two_digits"
  shows "\<exists>n. 0 \<le> n \<and> Atoi w = Inr n"
proof -
  from assms obtain a b where w: "w = [a, b]" and d: "isDigit a" "isDigit b"
    by (auto simp: two_digits_def)
  have s: "a \<noteq> CHR ''-''" "a \<noteq> CHR ''+''" using d by (auto simp: isDigit_def)
  have "digits_val [a, b] < 10 ^ length [a, b]"
    by (rule digits_val_bound) (simp add: d)
  then have "digits_val [a, b] < 100" by simp
  then have "Atoi w = Inr (int (digits_val [a, b]))"
    using w d s by (simp add: Atoi_def Let_def)
  then show ?thesis by (intro exI [of _ "int (digits_val [a, b])"]) simp
qed

lemma fss_shape:
  assumes "plain r"
  shows "FindStringSubmatch r s = [] \<or>
         (length (FindStringSubmatch r s) = Suc (length (groups r)) \<and>
          (\<forall>i<length (groups r). cap_ok (length s) (FindStringSubmatch r s ! Suc i) (groups r ! i)))"
proof -
  from fss_sound [OF assms refl, of s]
  show ?thesis
  proof
    assume "FindStringSubmatch r s = []" then show ?thesis by simp
  next
    assume "\<exists>w gs. FindStringSubmatch r s = w # gs \<and> list_all2 (cap_ok (length s)) gs (groups r)"
    then obtain w gs where m: "FindStringSubmatch r s = w # gs"
      and l: "list_all2 (cap_ok (length s)) gs (groups r)" by blast
    have "length gs = length (groups r)" using l by (rule list_all2_lengthD)
    moreover have "\<forall>i<length (groups r). cap_ok (length s) (gs ! i) (groups r ! i)"
      using l by (simp add: list_all2_conv_all_nth)
    ultimately show ?thesis using m by simp
  qed
qed

section \<open>The event of a line\<close>

lemma cap_number:
  assumes "cap_ok n g number"
  shows "\<exists>v. 0 \<le> v \<and> v < 10 ^ n \<and> ParseFloat g = float64_range v"
proof -
  from assms have g: "g \<in> lang number" and l: "length g \<le> n" by (simp_all add: cap_ok_def)
  from number_ParseFloat [OF g] obtain v where v: "0 \<le> v" "v < 10 ^ length g"
    "ParseFloat g = float64_range v" by blast
  have "(10::real) ^ length g \<le> 10 ^ n" using l by (intro power_increasing) auto
  then have "v < 10 ^ n" using v(2) by linarith
  then show ?thesis using v by (intro exI [of _ v]) simp
qed

lemma cap_two_digits:
  assumes "cap_ok n g two_digits"
  shows "\<exists>k. 0 \<le> k \<and> Atoi g = Inr k"
  using assms two_digits_Atoi by (simp add: cap_ok_def)

lemma start_capture:
  assumes "length (FindStringSubmatch silenceStartPattern s) = 2"
  shows "cap_ok (length s) (FindStringSubmatch silenceStartPattern s ! 1) number"
  using fss_shape [OF plain_patterns(1), of s] assms by (auto simp: groups_patterns)

lemma end_capture:
  assumes "length (FindStringSubmatch silenceEndPattern s) = 3"
  shows "cap_ok (length s) (FindStringSubmatch silenceEndPattern s ! 1) number"
    and "cap_ok (length s) (FindStringSubmatch silenceEndPattern s ! 2) number"
proof -
  have a: "\<forall>i<2. cap_ok (length s) (FindStringSubmatch silenceEndPattern s ! Suc i) ([number, number] ! i)"
    using fss_shape [OF plain_patterns(2), of s] assms by (auto simp: groups_patterns)
  show "cap_ok (length s) (FindStringSubmatch silenceEndPattern s ! 1) number"
    using a [rule_format, of 0] by simp
  show "cap_ok (length s) (FindStringSubmatch silenceEndPattern s ! 2) number"
    using a [rule_format, of 1] by (simp add: numeral_2_eq_2)
qed

lemma progress_capture:
  assumes "length (FindStringSubmatch progressTimePattern s) = 4"
  shows "cap_ok (length s) (FindStringSubmatch progressTimePattern s ! 1) two_digits"
    and "cap_ok (length s) (FindStringSubmatch progressTimePattern s ! 2) two_digits"
    and "cap_ok (length s) (FindStringSubmatch progressTimePattern s ! 3) number"
proof -
  have a: "\<forall>i<3. cap_ok (length s) (FindStringSubmatch progressTimePattern s ! Suc i)
             ([two_digits, two_digits, number] ! i)"
    using fss_shape [OF plain_patterns(3), of s] assms by (auto simp: groups_patterns)
  show "cap_ok (length s) (FindStringSubmatch progressTimePattern s ! 1) two_digits"
    using a [rule_format, of 0] by simp
  show "cap_ok (length s) (FindStringSubmatch progressTimePattern s ! 2) two_digits"
    using a [rule_format, of 1] by (simp add: numeral_2_eq_2)
  show "cap_ok (length s) (FindStringSubmatch progressTimePattern s ! 3) number"
    using a [rule_format, of 2] by (simp add: numeral_3_eq_3)
qed

lemma length_trimLeft: "length (trimLeft s) \<le> length s"
  by (induction s rule: trimLeft.induct) auto

lemma length_trimLeftRev: "length (trimLeftRev s) \<le> length s"
  by (induction s rule: trimLeftRev.induct) auto

lemma length_TrimSpace: "length (TrimSpace l) \<le> length l"
proof -
  have "length (TrimSpace l) \<le> length (rev (trimLeft l))"
    unfolding TrimSpace_def using length_trimLeftRev [of "rev (trimLeft l)"] by simp
  also have "\<dots> \<le> length l" using length_trimLeft [of l] by simp
  finally show ?thesis .
qed

lemma line_event_shape:
  "line_event l = Inr None \<or>
   (\<exists>v. 0 \<le> v \<and> v < 10 ^ length l \<and> line_event l = start_result v) \<or>
   (\<exists>v d. 0 \<le> v \<and> v < 10 ^ length l \<and> 0 \<le> d \<and> d < 10 ^ length l \<and> line_event l = end_result v d) \<or>
   (\<exists>h m v. 0 \<le> h \<and> 0 \<le> m \<and> 0 \<le> v \<and> v < 10 ^ length l \<and> line_event l = progress_result h m v)"
proof -
  let ?line = "TrimSpace l"
  have mono: "v < 10 ^ length l" if "v < 10 ^ length ?line" for v :: real
  proof -
    have "(10::real) ^ length ?line \<le> 10 ^ length l"
      using length_TrimSpace [of l] by (intro power_increasing) auto
    then show ?thesis using that by linarith
  qed
  consider (blank) "?line = []"
    | (start) "?line \<noteq> []" "length (FindStringSubmatch silenceStartPattern ?line) = 2"
    | (ending) "?line \<noteq> []" "length (FindStringSubmatch silenceStartPattern ?line) \<noteq> 2"
        "length (FindStringSubmatch silenceEndPattern ?line) = 3"
    | (progress) "?line \<noteq> []" "length (FindStringSubmatch silenceStartPattern ?line) \<noteq> 2"
        "length (FindStringSubmatch silenceEndPattern ?line) \<noteq> 3"
        "length (FindStringSubmatch progressTimePattern ?line) = 4"
    | (none) "?line \<noteq> []" "length (FindStringSubmatch silenceStartPattern ?line) \<noteq> 2"
        "length (FindStringSubmatch silenceEndPattern ?line) \<noteq> 3"
        "length (FindStringSubmatch progressTimePattern ?line) \<noteq> 4"
    by blast
  then show ?thesis
  proof cases
    case blank
    then have "line_event l = Inr None" by (simp add: line_event_def)
    then show ?thesis by simp
  next
    case start
    from cap_number [OF start_capture [OF start(2)]]
    obtain v where v: "0 \<le> v" "v < 10 ^ length ?line"
      "ParseFloat (FindStringSubmatch silenceStartPattern ?line ! 1) = float64_range v" by blast
    have "line_event l = start_result v"
      using start v(3) by (simp add: line_event_def start_result_def Let_def)
    then show ?thesis using v(1) mono [OF v(2)] by blast
  next
    case ending
    from cap_number [OF end_capture(1) [OF ending(3)]]
    obtain v where v: "0 \<le> v" "v < 10 ^ length ?line"
      "ParseFloat (FindStringSubmatch silenceEndPattern ?line ! 1) = float64_range v" by blast
    from cap_number [OF end_capture(2) [OF ending(3)]]
    obtain d where d: "0 \<le> d" "d < 10 ^ length ?line"
      "ParseFloat (FindStringSubmatch silenceEndPattern ?line ! 2) = float64_range d" by blast
    have "line_event l = end_result v d"
      using ending v(3) d(3) by (simp add: line_event_def end_result_def Let_def split: sum.splits)
    then show ?thesis using v(1) d(1) mono [OF v(2)] mono [OF d(2)] by blast
  next
    case progress
    from cap_two_digits [OF progress_capture(1) [OF progress(4)]]
    obtain h where h: "0 \<le> h" "Atoi (FindStringSubmatch progressTimePattern ?line ! 1) = Inr h" by blast
    from cap_two_digits [OF progress_capture(2) [OF progress(4)]]
    obtain m where m: "0 \<le> m" "Atoi (FindStringSubmatch progressTimePattern ?line ! 2) = Inr m" by blast
    from cap_number [OF progress_capture(3) [OF progress(4)]]
    obtain v where v: "0 \<le> v" "v < 10 ^ length ?line"
      "ParseFloat (FindStringSubmatch progressTimePattern ?line ! 3) = float64_range v" by blast
    have "line_event l = progress_result h m v"
      using progress h(2) m(2) v(3) by (simp add: line_event_def progress_result_def Let_def)
    then show ?thesis using h(1) m(1) v(1) mono [OF v(2)] by blast
  next
    case none
    then have "line_event l = Inr None" by (simp add: line_event_def)
    then show ?thesis by simp
  qed
qed

lemma float64_small: "(10::real) ^ 308 \<le> (2 ^ 53 - 1) * 2 ^ 971"
  by simp

lemma round64_Fin_idem: "round64 x = Fin r \<Longrightarrow> round64 r = Fin r"
proof -
  assume a: "round64 x = Fin r"
  then have r: "r = round64r x" "\<not> overflow64 \<le> r" "\<not> r \<le> - overflow64"
    by (auto simp: round64_def Let_def split: if_splits)
  have "round64r r = r" using a by (rule round64_Fin_fixed)
  then show ?thesis using r by (simp add: round64_def Let_def)
qed

lemma float64_range_error: "float64_range v = Inl err \<Longrightarrow> err = ErrRange"
  by (auto simp: float64_range_def split: f64.splits)

lemma float64_range_parsed:
  assumes "0 \<le> v" "float64_range v = Inr x"
  shows "binary64 x \<and> 0 \<le> x"
proof -
  from assms(2) obtain r where r: "round64 v = Fin r" "x = Fin r"
    by (auto simp: float64_range_def split: f64.splits)
  have "round64 r = Fin r" using r(1) by (rule round64_Fin_idem)
  moreover have "0 \<le> round64 v" using assms(1) by (rule round64_nonneg)
  ultimately show ?thesis using r by simp
qed

lemma range_small:
  assumes "0 \<le> v" "v < 10 ^ n" "n \<le> 308"
  shows "\<exists>x. float64_range v = Inr x"
proof -
  have "(10::real) ^ n \<le> 10 ^ 308" using assms(3) by (intro power_increasing) auto
  then have "v \<le> (2 ^ 53 - 1) * 2 ^ 971" using assms(2) float64_small by linarith
  from round64_in_range [OF assms(1) this] obtain r where "round64 v = Fin r" by blast
  then show ?thesis by (simp add: float64_range_def)
qed

lemma add_nonneg_f64: "0 \<le> a \<Longrightarrow> 0 \<le> b \<Longrightarrow> 0 \<le> a + (b::f64)"
proof -
  assume a: "0 \<le> a" "0 \<le> b"
  show ?thesis
  proof (cases a)
    case (Fin x)
    show ?thesis
    proof (cases b)
      case (Fin y)
      have "0 \<le> x + y" using a \<open>a = Fin x\<close> Fin by (simp add: f64_ops)
      then have "0 \<le> round64 (x + y)" by (rule round64_nonneg)
      then show ?thesis using \<open>a = Fin x\<close> Fin by (simp add: plus_f64_def)
    qed (use a \<open>a = Fin x\<close> in \<open>auto simp: f64_ops\<close>)
  qed (use a in \<open>cases b; auto simp: f64_ops\<close>)+
qed

lemma float64_of_int_nonneg: "0 \<le> n \<Longrightarrow> 0 \<le> float64_of_int n"
  unfolding float64_of_int_def by (rule round64_nonneg) simp

lemma line_event_error:
  assumes "line_event l = Inl err"
  shows "err \<in> range_errors"
proof -
  consider (none) "line_event l = Inr None"
    | (start) v where "line_event l = start_result v"
    | (ending) v d where "line_event l = end_result v d"
    | (progress) h m v where "line_event l = progress_result h m v"
    using line_event_shape [of l] by blast
  then show ?thesis
  proof cases
    case none
    then show ?thesis using assms by simp
  next
    case start
    then show ?thesis using assms
      by (auto simp: start_result_def range_errors_def split: sum.splits dest: float64_range_error)
  next
    case ending
    then show ?thesis using assms
      by (auto simp: end_result_def range_errors_def split: sum.splits dest: float64_range_error)
  next
    case progress
    then show ?thesis using assms
      by (auto simp: progress_result_def range_errors_def split: sum.splits dest: float64_range_error)
  qed
qed

lemma line_event_parsed:
  assumes "line_event l = Inr (Some ev)"
  shows "parsed_event ev"
proof -
  consider (none) "line_event l = Inr None"
    | (start) v where "0 \<le> v" "line_event l = start_result v"
    | (ending) v d where "0 \<le> v" "0 \<le> d" "line_event l = end_result v d"
    | (progress) h m v where "0 \<le> h" "0 \<le> m" "0 \<le> v" "line_event l = progress_result h m v"
    using line_event_shape [of l] by blast
  then show ?thesis
  proof cases
    case none
    then show ?thesis using assms by simp
  next
    case start
    then show ?thesis using assms
      by (auto simp: start_result_def split: sum.splits dest: float64_range_parsed)
  next
    case ending
    then show ?thesis using assms
      by (auto simp: end_result_def split: sum.splits dest: float64_range_parsed)
  next
    case progress
    have n: "0 \<le> float64_of_int (h * 3600 + m * 60)"
      using progress(1,2) by (intro float64_of_int_nonneg) simp
    show ?thesis using assms progress(3,4) n
      by (auto simp: progress_result_def split: sum.splits
          dest!: float64_range_parsed intro: add_nonneg_f64)
  qed
qed

lemma line_event_short:
  assumes "length l \<le> 308"
  shows "\<exists>ev. line_event l = Inr ev"
proof -
  consider (none) "line_event l = Inr None"
    | (start) v where "0 \<le> v" "v < 10 ^ length l" "line_event l = start_result v"
    | (ending) v d where "0 \<le> v" "v < 10 ^ length l" "0 \<le> d" "d < 10 ^ length l"
        "line_event l = end_result v d"
    | (progress) h m v where "0 \<le> v" "v < 10 ^ length l" "line_event l = progress_result h m v"
    using line_event_shape [of l] by blast
  then show ?thesis
  proof cases
    case none
    then show ?thesis by simp
  next
    case start
    from range_small [OF start(1,2) assms] show ?thesis
      using start(3) by (auto simp: start_result_def)
  next
    case ending
    from range_small [OF ending(1,2) assms] range_small [OF ending(3,4) assms] show ?thesis
      using ending(5) by (auto simp: end_result_def)
  next
    case progress
    from range_small [OF progress(1,2) assms] show ?thesis
      using progress(3) by (auto simp: progress_result_def)
  qed
qed

section \<open>Errors and events of a text\<close>

lemma line_events_error:
  "line_events ls = Inl err \<Longrightarrow> \<exists>l\<in>set ls. line_event l = Inl err"
  by (induction ls) (auto split: sum.splits)

lemma line_events_ok:
  "\<forall>l\<in>set ls. \<exists>ev. line_event l = Inr ev \<Longrightarrow> \<exists>es. line_events ls = Inr es"
proof (induction ls)
  case Nil
  show ?case by simp
next
  case (Cons l ls)
  then obtain ev es where "line_event l = Inr ev" "line_events ls = Inr es" by auto
  then show ?case by simp
qed

lemma finish_no_error: "snd (snd (finish st)) = None"
  by (simp add: finish_def split: option.splits)


section \<open>The events of some texts\<close>

lemma events_lines:
  "Split text newline = ls \<Longrightarrow> line_events ls = Inr es \<Longrightarrow> events text = Inr es"
  by (simp add: events_def)

lemma parse_of_events:
  "events text = Inr es \<Longrightarrow> parseSilenceOutput text = finish (foldl apply_event initial_state es)"
  by (simp add: parse_events)

lemma ev_start_0: "line_event ''silence_start: 0.000000'' = Inr (Some (SilenceStart (Fin 0)))"
  by (simp add: eval_defs)

lemma ev_start_3: "line_event ''silence_start: 3'' = Inr (Some (SilenceStart (Fin 3)))"
  by (simp add: eval_defs)

lemma ev_start_5: "line_event ''silence_start: 5'' = Inr (Some (SilenceStart (Fin 5)))"
  by (simp add: eval_defs)

lemma ev_start_10: "line_event ''silence_start: 10.000000'' = Inr (Some (SilenceStart (Fin 10)))"
  by (simp add: eval_defs)

lemma ev_end_5_1: "line_event ''silence_end: 5 | silence_duration: 1'' = Inr (Some (SilenceEnd (Fin 5) (Fin 1)))"
  by (simp add: eval_defs)

lemma ev_end_2_1: "line_event ''silence_end: 2 | silence_duration: 1'' = Inr (Some (SilenceEnd (Fin 2) (Fin 1)))"
  by (simp add: eval_defs)

lemma ev_end_1_2: "line_event ''silence_end: 1 | silence_duration: 2'' = Inr (Some (SilenceEnd (Fin 1) (Fin 2)))"
  by (simp add: eval_defs)

lemma ev_end_3_1: "line_event ''silence_end: 3 | silence_duration: 1'' = Inr (Some (SilenceEnd (Fin 3) (Fin 1)))"
  by (simp add: eval_defs)

lemma ev_end_35: "line_event ''silence_end: 3.500000 | silence_duration: 3.500000'' = Inr (Some (SilenceEnd (Fin (7 / 2)) (Fin (7 / 2))))"
  by (simp add: eval_defs)

lemma ev_end_12: "line_event ''silence_end: 12.000000 | silence_duration: 2.000000'' = Inr (Some (SilenceEnd (Fin 12) (Fin 2)))"
  by (simp add: eval_defs)

lemma ev_progress_12: "line_event ''time=00:00:12.00'' = Inr (Some (Progress (Fin 12)))"
  by (simp add: eval_defs)

lemma split_scenario_A:
  "Split scenario_A newline =
     [''silence_start: 0.000000'', ''silence_end: 3.500000 | silence_duration: 3.500000'',
      ''silence_start: 10.000000'', ''silence_end: 12.000000 | silence_duration: 2.000000'',
      ''time=00:00:12.00'']"
  unfolding scenario_A_def by (simp only: Split_append) (simp add: newline_def)

lemma events_scenario_A:
  "events scenario_A =
     Inr [SilenceStart (Fin 0), SilenceEnd (Fin (7 / 2)) (Fin (7 / 2)), SilenceStart (Fin 10), SilenceEnd (Fin 12) (Fin 2), Progress (Fin 12)]"
  by (rule events_lines [OF split_scenario_A])
     (simp add: ev_start_0 ev_end_35 ev_start_10 ev_end_12 ev_progress_12)

lemma parse_scenario_A:
  "parseSilenceOutput scenario_A =
     ([\<lparr>Start = Fin 0, End = Fin (7 / 2), Duration = Fin (7 / 2)\<rparr>, \<lparr>Start = Fin 10, End = Fin 12, Duration = Fin 2\<rparr>], Fin 12, None)"
  by (simp add: parse_events events_scenario_A finish_def initial_state_def f64_eval)

lemma split_scenario_C:
  "Split (''silence_start: 0.000000'' @ newline # ''time=00:00:05.00'') newline =
     [''silence_start: 0.000000'', ''time=00:00:05.00'']"
  by (simp only: Split_append) (simp add: newline_def)

lemma events_scenario_C:
  "events (''silence_start: 0.000000'' @ newline # ''time=00:00:05.00'') =
     Inr [SilenceStart (Fin 0), Progress (Fin 5)]"
  by (rule events_lines [OF split_scenario_C]) (simp add: ev_start_0 ev_progress)

lemma split_two_starts:
  "Split (''silence_start: 1'' @ newline # ''silence_start: 3'' @ newline # ''time=00:00:05.00'') newline =
     [''silence_start: 1'', ''silence_start: 3'', ''time=00:00:05.00'']"
  by (simp only: Split_append) (simp add: newline_def)

lemma events_two_starts:
  "events (''silence_start: 1'' @ newline # ''silence_start: 3'' @ newline # ''time=00:00:05.00'') =
     Inr [SilenceStart (Fin 1), SilenceStart (Fin 3), Progress (Fin 5)]"
  by (rule events_lines [OF split_two_starts]) (simp add: ev_start ev_start_3 ev_progress)

lemma split_disorder:
  "Split (''silence_end: 5 | silence_duration: 1'' @ newline # ''silence_end: 2 | silence_duration: 1'') newline =
     [''silence_end: 5 | silence_duration: 1'', ''silence_end: 2 | silence_duration: 1'']"
  by (simp only: Split_append) (simp add: newline_def)

lemma events_disorder:
  "events (''silence_end: 5 | silence_duration: 1'' @ newline # ''silence_end: 2 | silence_duration: 1'') =
     Inr [SilenceEnd (Fin 5) (Fin 1), SilenceEnd (Fin 2) (Fin 1)]"
  by (rule events_lines [OF split_disorder]) (simp add: ev_end_5_1 ev_end_2_1)

lemma split_start_end:
  "Split (''silence_start: 1'' @ newline # ''silence_end: 5 | silence_duration: 2'') newline =
     [''silence_start: 1'', ''silence_end: 5 | silence_duration: 2'']"
  by (simp only: Split_append) (simp add: newline_def)

lemma events_start_end:
  "events (''silence_start: 1'' @ newline # ''silence_end: 5 | silence_duration: 2'') =
     Inr [SilenceStart (Fin 1), SilenceEnd (Fin 5) (Fin 2)]"
  by (rule events_lines [OF split_start_end]) (simp add: ev_start ev_end)

lemma split_end_only:
  "Split ''silence_end: 1 | silence_duration: 2'' newline = [''silence_end: 1 | silence_duration: 2'']"
  by (rule Split_line) (simp add: newline_def)

lemma events_end_only:
  "events ''silence_end: 1 | silence_duration: 2'' = Inr [SilenceEnd (Fin 1) (Fin 2)]"
  by (rule events_lines [OF split_end_only]) (simp add: ev_end_1_2)

lemma split_end_before_start:
  "Split (''silence_start: 5'' @ newline # ''silence_end: 3 | silence_duration: 1'') newline =
     [''silence_start: 5'', ''silence_end: 3 | silence_duration: 1'']"
  by (simp only: Split_append) (simp add: newline_def)

lemma events_end_before_start:
  "events (''silence_start: 5'' @ newline # ''silence_end: 3 | silence_duration: 1'') =
     Inr [SilenceStart (Fin 5), SilenceEnd (Fin 3) (Fin 1)]"
  by (rule events_lines [OF split_end_before_start]) (simp add: ev_start_5 ev_end_3_1)

lemma parse_big:
  "parseSilenceOutput (''silence_start: 1'' @ replicate 400 (CHR ''0'')) =
     ([], 0, Some (ParseSilenceStart ErrRange))"
proof -
  have "line_loop ([] @ (''silence_start: 1'' @ replicate 400 (CHR ''0'')) # []) st = Inl (ParseSilenceStart ErrRange)" for st
    by (rule line_loop_first_error) (simp, rule big_line_event)
  then show ?thesis
    unfolding parseSilenceOutput_def Split_line [OF newline_not_in_big] by simp
qed


section \<open>Texts on which the rounding shows\<close>

text \<open>
  The binary64 numbers nearest to some decimals, and some rounded sums and differences.
\<close>

lemma round64_eval:
  assumes "2 powi e \<le> x" "x < 2 powi (e + 1)" "- 1022 \<le> e" "e < 1023"
  shows "round64 x = Fin (of_int (rne (x / 2 powi (e - 52))) * 2 powi (e - 52))"
proof -
  have pos: "0 < x" using assms(1) powi2_pos [of e] by linarith
  have r: "round64r x = of_int (rne (x / 2 powi (e - 52))) * 2 powi (e - 52)"
    using round64r_eval [of e x] assms pos by simp
  have x0: "x \<noteq> 0" using pos by simp
  have "expo x = e" using expo_iff [OF x0, of e] assms pos by simp
  then have u: "ulp_exp x = e - 52" using assms(3) by (simp add: ulp_exp_def)
  have "e - 52 + 53 = e + 1" by simp
  then have "round64r x \<le> 2 powi (e + 1)" using round64r_upper [OF pos] unfolding u by metis
  also have "\<dots> \<le> 2 powi 1023" using assms(4) by (intro powi2_mono) simp
  also have "\<dots> < overflow64" by (simp add: overflow64_def)
  finally have lt: "round64r x < overflow64" .
  have "0 \<le> round64r x" using pos by (intro round64r_nonneg) simp
  then show ?thesis using lt overflow64_pos unfolding r [symmetric]
    by (simp add: round64_def Let_def)
qed


lemma r64_68_21: "round64 (6821 / 100) = Fin f_68_21"
  using round64_eval [of 6 "6821 / 100"] by (simp add: rne_def Let_def f_68_21_def)

lemma r64_8_21: "round64 (821 / 100) = Fin f_8_21"
  using round64_eval [of 3 "821 / 100"] by (simp add: rne_def Let_def f_8_21_def)

lemma r64_68_21_sum: "round64 (60 + f_8_21) = Fin f_68_21_sum"
  using round64_eval [of 6 "60 + f_8_21"] by (simp add: rne_def Let_def f_8_21_def f_68_21_sum_def)

lemma ev_start_68_21: "line_event ''silence_start: 68.21'' = Inr (Some (SilenceStart (Fin f_68_21)))"
  by (simp add: eval_defs r64_68_21)

lemma ev_progress_68_21: "line_event ''time=00:01:08.21'' = Inr (Some (Progress (Fin f_68_21_sum)))"
proof -
  have "line_event ''time=00:01:08.21'' = Inr (Some (Progress (float64_of_int (0 * 3600 + 1 * 60) + Fin f_8_21)))"
    by (simp add: eval_defs r64_8_21 del: f64_ops float64_of_int_def)
  moreover have "float64_of_int (0 * 3600 + 1 * 60) + Fin f_8_21 = Fin f_68_21_sum"
    by (simp add: f64_eval r64_68_21_sum)
  ultimately show ?thesis by simp
qed


section \<open>The trailing interval\<close>

lemma lastProgress_foldl:
  "lastProgress (foldl apply_event st es) = last_progress (lastProgress st) es"
proof (induction es arbitrary: st)
  case Nil
  show ?case by simp
next
  case (Cons e es)
  then show ?case by (cases e) simp_all
qed

lemma last_progress_none: "\<forall>e\<in>set es. \<not> is_progress e \<Longrightarrow> last_progress p es = p"
proof (induction es)
  case Nil
  show ?case by simp
next
  case (Cons e es)
  then show ?case by (cases e) simp_all
qed

lemma foldl_progress_only:
  "\<forall>e\<in>set es. is_progress e \<Longrightarrow>
   intervals (foldl apply_event st es) = intervals st \<and>
   currentStart (foldl apply_event st es) = currentStart st"
proof (induction es arbitrary: st)
  case Nil
  show ?case by simp
next
  case (Cons e es)
  then show ?case by (cases e) simp_all
qed

lemma line_events_parsed:
  "line_events ls = Inr es \<Longrightarrow> \<forall>e\<in>set es. parsed_event e"
proof (induction ls arbitrary: es)
  case Nil
  then show ?case by simp
next
  case (Cons l ls)
  then show ?case
    by (auto split: sum.splits option.splits dest: line_event_parsed)
qed

lemma events_parsed: "events text = Inr es \<Longrightarrow> \<forall>e\<in>set es. parsed_event e"
  unfolding events_def by (rule line_events_parsed)

lemma le_not_less_f64: "a \<le> b \<Longrightarrow> \<not> b < (a::f64)"
  by (cases a; cases b) (auto simp: f64_ops)

text \<open>
  C2 as stated fails when a second start marker follows the first: with the events
  \<open>SilenceStart (Fin 1)\<close>, \<open>SilenceStart (Fin 3)\<close>, \<open>Progress (Fin 5)\<close>, the start at 1 is followed by no
  end marker and the last progress time 5 is beyond it, but the trailing interval is the
  one from 3 to 5, not the one from 1 to 5: a new start replaces the pending one.
\<close>

theorem superseded_start_counterexample:
  "events (''silence_start: 1'' @ newline # ''silence_start: 3'' @ newline # ''time=00:00:05.00'') =
     Inr [SilenceStart (Fin 1), SilenceStart (Fin 3), Progress (Fin 5)] \<and>
   parseSilenceOutput (''silence_start: 1'' @ newline # ''silence_start: 3'' @ newline # ''time=00:00:05.00'') =
     ([\<lparr>Start = Fin 3, End = Fin 5, Duration = Fin 2\<rparr>], Fin 5, None) \<and>
   fst (parseSilenceOutput (''silence_start: 1'' @ newline # ''silence_start: 3'' @ newline # ''time=00:00:05.00''))
     \<noteq> [\<lparr>Start = Fin 1, End = Fin 5, Duration = Fin 4\<rparr>]"
  by (simp only: parse_of_events [OF events_two_starts] events_two_starts) (simp add: finish_def initial_state_def f64_eval)

text \<open>
  C2, amended. When the events of the text are \<open>es1\<close>, then \<open>SilenceStart t\<close>, then
  progress events only (no end marker and no other start marker after it), the result is
  the intervals closed by \<open>es1\<close>, followed by exactly one trailing interval from \<open>t\<close> to
  the last progress time \<open>p\<close> of the text, of duration \<open>p - t\<close>, when \<open>p > t\<close>, and by
  nothing otherwise; the duration returned is \<open>p\<close> (0 when the text has no progress
  marker, and then there is no trailing interval). Here \<open>t\<close> and \<open>p\<close> are the \<^verbatim>\<open>float64\<close>
  values the parser computed, \<open>p\<close> being the rounded sum of the hours and minutes in
  seconds and the parsed seconds, and \<open>p - t\<close> is the rounded difference.
\<close>

theorem trailing_interval:
  assumes "events text = Inr es"
    and "es = es1 @ SilenceStart t # es2"
    and "\<forall>e\<in>set es2. is_progress e"
  shows "parseSilenceOutput text =
           (closed_intervals es1 @
              (if last_progress 0 es > t
               then [\<lparr>Start = t, End = last_progress 0 es, Duration = last_progress 0 es - t\<rparr>]
               else []),
            last_progress 0 es, None) \<and>
         ((\<forall>e\<in>set es. \<not> is_progress e) \<longrightarrow>
            parseSilenceOutput text = (closed_intervals es1, 0, None))"
proof -
  let ?st1 = "foldl apply_event initial_state es1"
  let ?st = "foldl apply_event initial_state es"
  have st: "?st = foldl apply_event (?st1\<lparr>currentStart := Some t\<rparr>) es2"
    unfolding assms(2) by simp
  have i: "intervals ?st = closed_intervals es1" and c: "currentStart ?st = Some t"
    using foldl_progress_only [OF assms(3), of "?st1\<lparr>currentStart := Some t\<rparr>"]
    unfolding st closed_intervals_def by simp_all
  have p: "lastProgress ?st = last_progress 0 es"
    using lastProgress_foldl [of initial_state es] by (simp add: initial_state_def)
  have r: "parseSilenceOutput text = finish ?st"
    using assms(1) by (simp add: parse_events)
  have 1: "parseSilenceOutput text =
           (closed_intervals es1 @
              (if last_progress 0 es > t
               then [\<lparr>Start = t, End = last_progress 0 es, Duration = last_progress 0 es - t\<rparr>]
               else []),
            last_progress 0 es, None)"
    unfolding r finish_def i c p by simp
  have 2: "parseSilenceOutput text = (closed_intervals es1, 0, None)"
    if n: "\<forall>e\<in>set es. \<not> is_progress e"
  proof -
    have z: "last_progress 0 es = 0" using last_progress_none [OF n] .
    have "parsed_event (SilenceStart t)"
      using events_parsed [OF assms(1)] assms(2) by simp
    then have "\<not> 0 > t" by (simp add: le_not_less_f64)
    then show ?thesis unfolding 1 z by simp
  qed
  show ?thesis using 1 2 by blast
qed




lemma split_68_21:
  "Split (''silence_start: 68.21'' @ newline # ''time=00:01:08.21'') newline =
     [''silence_start: 68.21'', ''time=00:01:08.21'']"
  by (simp only: Split_append) (simp add: newline_def)

lemma events_68_21:
  "events (''silence_start: 68.21'' @ newline # ''time=00:01:08.21'') =
     Inr [SilenceStart (Fin f_68_21), Progress (Fin f_68_21_sum)]"
  by (rule events_lines [OF split_68_21]) (simp add: ev_start_68_21 ev_progress_68_21)

text \<open>
  The start 68.21 and the progress time 00:01:08.21 are the same decimal; the parsed
  start is the binary64 number nearest to 68.21, the progress time is the rounded sum
  of 60 and the binary64 number nearest to 8.21, one unit in the last place greater:
  the trailing interval is emitted.
\<close>

theorem trailing_interval_witness:
  "events (''silence_start: 68.21'' @ newline # ''time=00:01:08.21'') =
     Inr ([] @ SilenceStart (Fin f_68_21) # [Progress (Fin f_68_21_sum)]) \<and>
   is_progress (Progress (Fin f_68_21_sum)) \<and>
   Fin f_68_21_sum > Fin f_68_21 \<and>
   parseSilenceOutput (''silence_start: 68.21'' @ newline # ''time=00:01:08.21'') =
     ([\<lparr>Start = Fin f_68_21, End = Fin f_68_21_sum, Duration = Fin f_68_21_sum - Fin f_68_21\<rparr>],
      Fin f_68_21_sum, None) \<and>
   events ''silence_start: 1'' = Inr ([] @ SilenceStart (Fin 1) # []) \<and>
   parseSilenceOutput ''silence_start: 1'' = ([], 0, None)"
proof -
  have e1: "events (''silence_start: 68.21'' @ newline # ''time=00:01:08.21'') =
     Inr [SilenceStart (Fin f_68_21), Progress (Fin f_68_21_sum)]"
    by (rule events_68_21)
  have s2: "Split ''silence_start: 1'' newline = [''silence_start: 1'']"
    by (rule Split_line) (simp add: newline_def)
  have e2: "events ''silence_start: 1'' = Inr [SilenceStart (Fin 1)]"
    by (rule events_lines [OF s2]) (simp add: ev_start)
  have p1: "\<forall>e\<in>set [Progress (Fin f_68_21_sum)]. is_progress e" by simp
  have p2: "\<forall>e\<in>set []. is_progress e" by simp
  have n2: "\<forall>e\<in>set [SilenceStart (Fin 1)]. \<not> is_progress e" by simp
  have a: "[SilenceStart (Fin f_68_21), Progress (Fin f_68_21_sum)] =
      [] @ SilenceStart (Fin f_68_21) # [Progress (Fin f_68_21_sum)]" by simp
  have b: "[SilenceStart (Fin 1)] = [] @ SilenceStart (Fin 1) # []" by simp
  have lt: "Fin f_68_21_sum > Fin f_68_21"
    by (simp add: f64_ops f_68_21_def f_68_21_sum_def)
  show ?thesis
    using trailing_interval [OF e1 a p1, THEN conjunct1]
      trailing_interval [OF e2 b p2, THEN conjunct2, THEN mp, OF n2] e1 e2 lt
    by (simp add: closed_intervals_def initial_state_def)
qed

section \<open>Order of the intervals\<close>

lemma chronological_snoc:
  "chronological (xs @ [b]) \<longleftrightarrow>
     chronological xs \<and> (xs \<noteq> [] \<longrightarrow> End (last xs) \<le> Start b \<and> Start (last xs) \<le> Start b)"
  by (induction xs rule: chronological.induct) auto

lemma binary64_refl: "binary64 a \<Longrightarrow> a \<le> a"
  by (cases a) (simp_all add: f64_ops)

lemma sub_le_f64:
  assumes "binary64 e" "binary64 d" "0 \<le> d"
  shows "e - d \<le> e"
proof -
  obtain x where x: "e = Fin x" "round64 x = Fin x" using assms(1) by (cases e) simp_all
  obtain y where y: "d = Fin y" "0 \<le> y" using assms(2,3) by (cases d) (simp_all add: f64_ops)
  have "round64 (x - y) \<le> Fin x" using y(2) x(2) by (intro round64_Fin_mono [of _ x]) simp_all
  then show ?thesis using x(1) y(1) by (simp add: f64_ops)
qed

lemma sub_nonneg_f64:
  assumes "binary64 e" "binary64 d" "d \<le> e"
  shows "0 \<le> e - d"
proof -
  obtain x where x: "e = Fin x" using assms(1) by (cases e) simp_all
  obtain y where y: "d = Fin y" using assms(2) by (cases d) simp_all
  have "y \<le> x" using assms(3) x y by (simp add: f64_ops)
  then have "0 \<le> round64 (x - y)" by (intro round64_nonneg) simp
  then show ?thesis using x y by (simp add: f64_ops)
qed

lemma ordered_state_start:
  assumes "ordered_state t st" "t \<le> s" "binary64 s"
  shows "ordered_state s (apply_event st (SilenceStart s))"
  using assms le_trans_f64 [OF _ assms(2)] binary64_refl [OF assms(3)]
  by (auto simp: ordered_state_def)

lemma ordered_state_end:
  assumes "ordered_state t st" "binary64 e" "binary64 d" "0 \<le> d"
    and "case currentStart st of Some s \<Rightarrow> s \<le> e | None \<Rightarrow> t \<le> e - d"
  shows "ordered_state e (apply_event st (SilenceEnd e d))"
proof (cases "currentStart st")
  case None
  then have t: "t \<le> e - d" using assms(5) by simp
  show ?thesis
    using assms(1) None le_trans_f64 [OF _ t] binary64_refl [OF assms(2)] sub_le_f64 [OF assms(2,3,4)]
    by (auto simp: ordered_state_def chronological_snoc)
next
  case (Some s)
  then have s: "s \<le> e" using assms(5) by simp
  have t: "t \<le> s" using assms(1) Some by (simp add: ordered_state_def)
  show ?thesis
    using assms(1) Some s le_trans_f64 [OF _ t] binary64_refl [OF assms(2)]
    by (auto simp: ordered_state_def chronological_snoc)
qed

lemma well_ordered_foldl:
  "well_ordered t (currentStart st) es \<Longrightarrow> \<forall>ev\<in>set es. parsed_event ev \<Longrightarrow> ordered_state t st \<Longrightarrow>
   \<exists>t'. ordered_state t' (foldl apply_event st es)"
proof (induction es arbitrary: t st)
  case Nil
  then show ?case by auto
next
  case (Cons ev es)
  have p: "\<forall>ev\<in>set es. parsed_event ev" "parsed_event ev" using Cons.prems(2) by simp_all
  show ?case
  proof (cases ev)
    case (SilenceStart s)
    have w: "t \<le> s" "well_ordered s (currentStart (apply_event st ev)) es"
      using Cons.prems(1) SilenceStart by simp_all
    have "ordered_state s (apply_event st ev)"
      using ordered_state_start [OF Cons.prems(3) w(1)] p(2) SilenceStart by simp
    from Cons.IH [OF w(2) p(1) this] show ?thesis by simp
  next
    case (SilenceEnd e d)
    have w: "well_ordered e (currentStart (apply_event st ev)) es"
      using Cons.prems(1) SilenceEnd by simp
    have c: "case currentStart st of Some s \<Rightarrow> s \<le> e | None \<Rightarrow> t \<le> e - d"
      using Cons.prems(1) SilenceEnd by (simp split: option.splits)
    have "ordered_state e (apply_event st ev)"
      using ordered_state_end [OF Cons.prems(3) _ _ _ c] p(2) SilenceEnd by simp
    from Cons.IH [OF w p(1) this] show ?thesis by simp
  next
    case (Progress p')
    have w: "well_ordered t (currentStart (apply_event st ev)) es"
      using Cons.prems(1) Progress by simp
    have "ordered_state t (apply_event st ev)"
      using Cons.prems(3) Progress by (simp add: ordered_state_def)
    from Cons.IH [OF w p(1) this] show ?thesis by simp
  qed
qed

lemma finish_chronological:
  assumes "ordered_state t st"
  shows "chronological (fst (finish st))"
proof (cases "currentStart st")
  case None
  then show ?thesis using assms by (simp add: finish_def ordered_state_def)
next
  case (Some s)
  then have "t \<le> s" using assms by (simp add: ordered_state_def)
  then show ?thesis
    using assms Some le_trans_f64 [OF _ \<open>t \<le> s\<close>]
    by (auto simp: finish_def ordered_state_def chronological_snoc)
qed

text \<open>
  C5 as stated fails: the parser appends the intervals in the order of the end markers
  and checks nothing. Two end markers in decreasing order give intervals that are not
  chronological.
\<close>

theorem disorder_counterexample:
  "parseSilenceOutput (''silence_end: 5 | silence_duration: 1'' @ newline # ''silence_end: 2 | silence_duration: 1'') =
     ([\<lparr>Start = Fin 4, End = Fin 5, Duration = Fin 1\<rparr>, \<lparr>Start = Fin 1, End = Fin 2, Duration = Fin 1\<rparr>], 0, None) \<and>
   \<not> chronological (fst (parseSilenceOutput
       (''silence_end: 5 | silence_duration: 1'' @ newline # ''silence_end: 2 | silence_duration: 1'')))"
  by (simp only: parse_of_events [OF events_disorder] events_disorder) (simp add: finish_def initial_state_def f64_eval)

text \<open>
  C5, amended. The parser neither sorts nor checks the intervals. When it succeeds on a
  text whose events are well ordered (from time 0 and no pending start, the fallback
  start of an end marker being the \<^verbatim>\<open>float64\<close> difference of its end and its
  duration), the intervals it returns are chronological and non-overlapping: each starts
  at or after the end, and at or after the start, of the one before it.
\<close>

theorem ordered_events_chronological:
  assumes "events text = Inr es" and "well_ordered 0 None es"
  shows "chronological (fst (parseSilenceOutput text))"
proof -
  have "ordered_state 0 initial_state" by (simp add: ordered_state_def initial_state_def)
  moreover have "well_ordered 0 (currentStart initial_state) es"
    using assms(2) by (simp add: initial_state_def)
  ultimately obtain t' where "ordered_state t' (foldl apply_event initial_state es)"
    using well_ordered_foldl events_parsed [OF assms(1)] by blast
  then show ?thesis
    using assms(1) finish_chronological by (simp add: parse_events)
qed

theorem ordered_events_chronological_witness:
  "well_ordered 0 None [SilenceStart (Fin 0), SilenceEnd (Fin (7 / 2)) (Fin (7 / 2)), SilenceStart (Fin 10), SilenceEnd (Fin 12) (Fin 2), Progress (Fin 12)] \<and>
   chronological [\<lparr>Start = Fin 0, End = Fin (7 / 2), Duration = Fin (7 / 2)\<rparr>, \<lparr>Start = Fin 10, End = Fin 12, Duration = Fin 2\<rparr>] \<and>
   fst (parseSilenceOutput scenario_A) =
     [\<lparr>Start = Fin 0, End = Fin (7 / 2), Duration = Fin (7 / 2)\<rparr>, \<lparr>Start = Fin 10, End = Fin 12, Duration = Fin 2\<rparr>]"
proof -
  have w: "well_ordered 0 None [SilenceStart (Fin 0), SilenceEnd (Fin (7 / 2)) (Fin (7 / 2)), SilenceStart (Fin 10), SilenceEnd (Fin 12) (Fin 2), Progress (Fin 12)]"
    by (simp add: f64_eval)
  show ?thesis
    using ordered_events_chronological [OF events_scenario_A w] w
    by (simp only: parse_scenario_A fst_conv)
qed

section \<open>Durations of the intervals\<close>

lemma durations_foldl:
  "(\<forall>iv\<in>set (intervals (foldl apply_event st es)). duration_is_difference iv) \<longleftrightarrow>
   (\<forall>iv\<in>set (intervals st). duration_is_difference iv) \<and> durations_consistent (currentStart st) es"
proof (induction es arbitrary: st)
  case Nil
  then show ?case by simp
next
  case (Cons ev es)
  have "(\<forall>iv\<in>set (intervals (apply_event st ev)). duration_is_difference iv) \<and>
          durations_consistent (currentStart (apply_event st ev)) es \<longleftrightarrow>
        (\<forall>iv\<in>set (intervals st). duration_is_difference iv) \<and>
          durations_consistent (currentStart st) (ev # es)"
    by (cases ev) (auto simp: duration_is_difference_def split: option.splits)
  then show ?case using Cons.IH [of "apply_event st ev"] by simp
qed

lemma finish_durations:
  "(\<forall>iv\<in>set (fst (finish st)). duration_is_difference iv) \<longleftrightarrow>
   (\<forall>iv\<in>set (intervals st). duration_is_difference iv)"
  by (auto simp: finish_def duration_is_difference_def split: option.splits)

text \<open>
  C6 as stated fails: with a pending start at 1, an end marker at 5 that reports the
  duration 2 gives the interval from 1 to 5 with duration 2, not 4.
\<close>

theorem reported_duration_counterexample:
  "parseSilenceOutput (''silence_start: 1'' @ newline # ''silence_end: 5 | silence_duration: 2'') =
     ([\<lparr>Start = Fin 1, End = Fin 5, Duration = Fin 2\<rparr>], 0, None) \<and>
   Duration \<lparr>Start = Fin 1, End = Fin 5, Duration = Fin 2\<rparr>
     \<noteq> End \<lparr>Start = Fin 1, End = Fin 5, Duration = Fin 2\<rparr> - Start \<lparr>Start = Fin 1, End = Fin 5, Duration = Fin 2\<rparr>"
  by (simp only: parse_of_events [OF events_start_end] events_start_end) (simp add: finish_def initial_state_def f64_eval)

text \<open>
  C6, amended. The duration of an interval closed by an end marker is the duration the
  marker reports, whatever its start and its end. When the parser succeeds, every
  interval it returns has a duration equal to the \<^verbatim>\<open>float64\<close> difference of its end
  and its start exactly when every end marker reports, as its duration, the
  \<^verbatim>\<open>float64\<close> difference of its end and the start stored with it: the pending start,
  or with no pending start the fallback start, itself the rounded difference of the end
  and the reported duration.
\<close>

theorem consistent_durations:
  assumes "events text = Inr es"
  shows "(\<forall>iv\<in>set (fst (parseSilenceOutput text)). Duration iv = End iv - Start iv) \<longleftrightarrow>
         durations_consistent None es"
proof -
  have "(\<forall>iv\<in>set (fst (parseSilenceOutput text)). duration_is_difference iv) \<longleftrightarrow>
        durations_consistent None es"
    using assms by (simp add: parse_events finish_durations durations_foldl initial_state_def)
  then show ?thesis by (simp add: duration_is_difference_def)
qed

theorem consistent_durations_witness:
  "durations_consistent None [SilenceStart (Fin 0), SilenceEnd (Fin (7 / 2)) (Fin (7 / 2)), SilenceStart (Fin 10), SilenceEnd (Fin 12) (Fin 2), Progress (Fin 12)] \<and>
   fst (parseSilenceOutput scenario_A) =
     [\<lparr>Start = Fin 0, End = Fin (7 / 2), Duration = Fin (7 / 2)\<rparr>, \<lparr>Start = Fin 10, End = Fin 12, Duration = Fin 2\<rparr>] \<and>
   Duration (fst (parseSilenceOutput scenario_A) ! 0) =
     End (fst (parseSilenceOutput scenario_A) ! 0) - Start (fst (parseSilenceOutput scenario_A) ! 0) \<and>
   Duration (fst (parseSilenceOutput scenario_A) ! 1) =
     End (fst (parseSilenceOutput scenario_A) ! 1) - Start (fst (parseSilenceOutput scenario_A) ! 1)"
proof -
  have d: "durations_consistent None [SilenceStart (Fin 0), SilenceEnd (Fin (7 / 2)) (Fin (7 / 2)), SilenceStart (Fin 10), SilenceEnd (Fin 12) (Fin 2), Progress (Fin 12)]"
    by (simp add: f64_eval)
  have m: "fst (parseSilenceOutput scenario_A) ! 0 \<in> set (fst (parseSilenceOutput scenario_A))"
    "fst (parseSilenceOutput scenario_A) ! 1 \<in> set (fst (parseSilenceOutput scenario_A))"
    by (simp_all add: parse_scenario_A)
  have a: "\<forall>iv\<in>set (fst (parseSilenceOutput scenario_A)). Duration iv = End iv - Start iv"
    using consistent_durations [OF events_scenario_A] d by blast
  show ?thesis
    using a [rule_format, OF m(1)] a [rule_format, OF m(2)] d
    by (simp add: parse_scenario_A)
qed

section \<open>Bounds of the intervals\<close>

lemma ends_foldl:
  "ends_consistent (currentStart st) es \<Longrightarrow> \<forall>e\<in>set es. parsed_event e \<Longrightarrow>
   bounded_state st \<Longrightarrow> bounded_state (foldl apply_event st es)"
proof (induction es arbitrary: st)
  case Nil
  then show ?case by simp
next
  case (Cons ev es)
  have "ends_consistent (currentStart (apply_event st ev)) es \<and> bounded_state (apply_event st ev)"
    using Cons.prems sub_le_f64 sub_nonneg_f64
    by (cases ev) (auto simp: bounded_state_def split: option.splits)
  then show ?case using Cons.IH [of "apply_event st ev"] Cons.prems(2) by simp
qed

text \<open>
  C7 as stated fails: an end marker at 1 with duration 2 and no pending start gives an
  interval that starts at \<open>- 1\<close>; an end marker at 3 after a start marker at 5 gives an
  interval that ends before it starts.
\<close>

theorem negative_start_counterexample:
  "parseSilenceOutput ''silence_end: 1 | silence_duration: 2'' =
     ([\<lparr>Start = Fin (- 1), End = Fin 1, Duration = Fin 2\<rparr>], 0, None) \<and>
   Start \<lparr>Start = Fin (- 1), End = Fin 1, Duration = Fin 2\<rparr> < 0 \<and>
   parseSilenceOutput (''silence_start: 5'' @ newline # ''silence_end: 3 | silence_duration: 1'') =
     ([\<lparr>Start = Fin 5, End = Fin 3, Duration = Fin 1\<rparr>], 0, None) \<and>
   End \<lparr>Start = Fin 5, End = Fin 3, Duration = Fin 1\<rparr> < Start \<lparr>Start = Fin 5, End = Fin 3, Duration = Fin 1\<rparr>"
  by (simp only: parse_of_events [OF events_end_only] parse_of_events [OF events_end_before_start])
     (simp add: finish_def initial_state_def f64_eval)

text \<open>
  C7, amended. When every end marker is at or after the pending start it closes, and
  with no pending start is at or after its own duration, every interval returned has a
  start that is not negative and an end at or after its start.
\<close>

theorem consistent_ends_bounds:
  assumes "events text = Inr es" and "ends_consistent None es"
  shows "\<forall>iv\<in>set (fst (parseSilenceOutput text)). 0 \<le> Start iv \<and> Start iv \<le> End iv"
proof -
  have "bounded_state (foldl apply_event initial_state es)"
    using assms(2) events_parsed [OF assms(1)]
    by (intro ends_foldl) (simp_all add: initial_state_def bounded_state_def)
  then show ?thesis
    using assms(1) less_imp_le_f64
    by (auto simp: parse_events finish_def bounded_state_def split: option.splits)
qed

theorem consistent_ends_bounds_witness:
  "ends_consistent None [SilenceStart (Fin 0), SilenceEnd (Fin (7 / 2)) (Fin (7 / 2)), SilenceStart (Fin 10), SilenceEnd (Fin 12) (Fin 2), Progress (Fin 12)] \<and>
   fst (parseSilenceOutput scenario_A) =
     [\<lparr>Start = Fin 0, End = Fin (7 / 2), Duration = Fin (7 / 2)\<rparr>, \<lparr>Start = Fin 10, End = Fin 12, Duration = Fin 2\<rparr>] \<and>
   0 \<le> Start (fst (parseSilenceOutput scenario_A) ! 1) \<and>
   Start (fst (parseSilenceOutput scenario_A) ! 1) \<le> End (fst (parseSilenceOutput scenario_A) ! 1)"
proof -
  have d: "ends_consistent None [SilenceStart (Fin 0), SilenceEnd (Fin (7 / 2)) (Fin (7 / 2)), SilenceStart (Fin 10), SilenceEnd (Fin 12) (Fin 2), Progress (Fin 12)]"
    by (simp add: f64_eval)
  have m: "fst (parseSilenceOutput scenario_A) ! 1 \<in> set (fst (parseSilenceOutput scenario_A))"
    by (simp add: parse_scenario_A)
  show ?thesis
    using consistent_ends_bounds [OF events_scenario_A d, rule_format, OF m] d
    by (simp add: parse_scenario_A)
qed

section \<open>More texts on which the rounding shows\<close>

lemma r64_7_2: "round64 (36 / 5) = Fin f_7_2"
  using round64_eval [of 2 "36 / 5"] by (simp add: rne_def Let_def f_7_2_def)

lemma r64_9_2: "round64 (46 / 5) = Fin f_9_2"
  using round64_eval [of 3 "46 / 5"] by (simp add: rne_def Let_def f_9_2_def)

lemma r64_7_2_start: "round64 (f_7_2 - 1) = Fin f_7_2_start"
  using round64_eval [of 2 "f_7_2 - 1"] by (simp add: rne_def Let_def f_7_2_def f_7_2_start_def)

lemma r64_9_2_start: "round64 (f_9_2 - 2) = Fin f_9_2_start"
  using round64_eval [of 2 "f_9_2 - 2"] by (simp add: rne_def Let_def f_9_2_def f_9_2_start_def)

lemma r64_100_1: "round64 (1001 / 10) = Fin f_100_1"
  using round64_eval [of 6 "1001 / 10"] by (simp add: rne_def Let_def f_100_1_def)

lemma r64_0_3: "round64 (3 / 10) = Fin f_0_3"
  using round64_eval [of "- 2" "3 / 10"] by (simp add: rne_def Let_def f_0_3_def power_int_minus)

lemma r64_100_1_start: "round64 (f_100_1 - f_0_3) = Fin f_100_1_start"
  using round64_eval [of 6 "f_100_1 - f_0_3"]
  by (simp add: rne_def Let_def f_100_1_def f_0_3_def f_100_1_start_def)

lemma r64_100_1_diff: "round64 (f_100_1 - f_100_1_start) = Fin f_100_1_diff"
  using round64_eval [of "- 2" "f_100_1 - f_100_1_start"]
  by (simp add: rne_def Let_def f_100_1_def f_100_1_start_def f_100_1_diff_def power_int_minus)

lemma ev_end_7_2:
  "line_event ''silence_end: 7.2 | silence_duration: 1'' = Inr (Some (SilenceEnd (Fin f_7_2) (Fin 1)))"
  by (simp add: eval_defs r64_7_2)

lemma ev_end_9_2:
  "line_event ''silence_end: 9.2 | silence_duration: 2'' = Inr (Some (SilenceEnd (Fin f_9_2) (Fin 2)))"
  by (simp add: eval_defs r64_9_2)

lemma ev_end_100_1:
  "line_event ''silence_end: 100.1 | silence_duration: 0.3'' = Inr (Some (SilenceEnd (Fin f_100_1) (Fin f_0_3)))"
  by (simp add: eval_defs r64_100_1 r64_0_3)

lemma split_7_2:
  "Split text_7_2 newline =
     [''silence_end: 7.2 | silence_duration: 1'', ''silence_end: 9.2 | silence_duration: 2'']"
  unfolding text_7_2_def by (simp only: Split_append) (simp add: newline_def)

lemma events_7_2: "events text_7_2 = Inr [SilenceEnd (Fin f_7_2) (Fin 1), SilenceEnd (Fin f_9_2) (Fin 2)]"
  by (rule events_lines [OF split_7_2]) (simp add: ev_end_7_2 ev_end_9_2)

lemma split_100_1:
  "Split ''silence_end: 100.1 | silence_duration: 0.3'' newline = [''silence_end: 100.1 | silence_duration: 0.3'']"
  by (rule Split_line) (simp add: newline_def)

lemma events_100_1:
  "events ''silence_end: 100.1 | silence_duration: 0.3'' = Inr [SilenceEnd (Fin f_100_1) (Fin f_0_3)]"
  by (rule events_lines [OF split_100_1]) (simp add: ev_end_100_1)

text \<open>
  The ends 7.2 and 9.2 with the durations 1 and 2 are, as decimals, two intervals that
  touch at 7.2. The fallback start of the second is the rounded difference of the
  binary64 numbers nearest to 9.2 and 2, one unit in the last place below the binary64
  number nearest to 7.2: the events are not well ordered and the intervals overlap.
\<close>

lemma parse_7_2:
  "parseSilenceOutput text_7_2 =
     ([\<lparr>Start = Fin f_7_2_start, End = Fin f_7_2, Duration = Fin 1\<rparr>,
       \<lparr>Start = Fin f_9_2_start, End = Fin f_9_2, Duration = Fin 2\<rparr>], 0, None)"
  by (simp only: parse_of_events [OF events_7_2])
     (simp add: finish_def initial_state_def f64_ops r64_7_2_start r64_9_2_start)

lemma overlap_7_2:
  "Fin f_9_2_start < Fin f_7_2 \<and>
   \<not> well_ordered 0 None [SilenceEnd (Fin f_7_2) (Fin 1), SilenceEnd (Fin f_9_2) (Fin 2)] \<and>
   \<not> chronological (fst (parseSilenceOutput text_7_2))"
proof -
  have 1: "Fin f_9_2_start < Fin f_7_2" by (simp add: f64_ops f_9_2_start_def f_7_2_def)
  have 2: "\<not> Fin f_7_2 \<le> Fin f_9_2_start" by (simp add: f64_ops f_9_2_start_def f_7_2_def)
  have 3: "\<not> well_ordered 0 None [SilenceEnd (Fin f_7_2) (Fin 1), SilenceEnd (Fin f_9_2) (Fin 2)]"
    using 2 by (simp add: f64_ops r64_7_2_start r64_9_2_start)
  have 4: "\<not> chronological (fst (parseSilenceOutput text_7_2))"
    using 2 by (simp add: parse_7_2)
  show ?thesis using 1 3 4 by blast
qed

text \<open>
  With no pending start, the end 100.1 and the duration 0.3 give the start
  \<open>f_100_1_start\<close>, the rounded difference; the difference of the end and this start is
  not the reported duration.
\<close>

lemma parse_100_1:
  "parseSilenceOutput ''silence_end: 100.1 | silence_duration: 0.3'' =
     ([\<lparr>Start = Fin f_100_1_start, End = Fin f_100_1, Duration = Fin f_0_3\<rparr>], 0, None)"
  by (simp only: parse_of_events [OF events_100_1])
     (simp add: finish_def initial_state_def f64_ops r64_100_1_start)

lemma fallback_100_1:
  "Fin f_100_1 - Fin f_100_1_start = Fin f_100_1_diff \<and> Fin f_100_1_diff \<noteq> Fin f_0_3 \<and>
   \<not> durations_consistent None [SilenceEnd (Fin f_100_1) (Fin f_0_3)]"
proof -
  have 1: "Fin f_100_1 - Fin f_100_1_start = Fin f_100_1_diff"
    by (simp add: f64_ops r64_100_1_diff)
  have 2: "Fin f_100_1_diff \<noteq> Fin f_0_3" by (simp add: f_100_1_diff_def f_0_3_def)
  have 3: "Fin f_100_1 - (Fin f_100_1 - Fin f_0_3) = Fin f_100_1_diff"
    by (simp add: f64_ops r64_100_1_diff r64_100_1_start)
  have "\<not> durations_consistent None [SilenceEnd (Fin f_100_1) (Fin f_0_3)]"
    using 2 by (simp add: 3)
  then show ?thesis using 1 2 by blast
qed


section \<open>When the parser fails\<close>

text \<open>
  C10 as stated fails: the patterns capture decimals of any length, and
  \<open>ParseFloat\<close> rejects a decimal beyond the range of \<^verbatim>\<open>float64\<close>. A silence start
  of 401 digits makes the parser return an error.
\<close>

theorem out_of_range_counterexample:
  "snd (snd (parseSilenceOutput (''silence_start: 1'' @ replicate 400 (CHR ''0'')))) =
     Some (ParseSilenceStart ErrRange) \<and>
   snd (snd (parseSilenceOutput (''silence_start: 1'' @ replicate 400 (CHR ''0'')))) \<noteq> None"
  by (simp only: parse_big snd_conv) simp

text \<open>
  C10, amended. \<open>parseSilenceOutput\<close> can fail, and only with a range error of a
  captured number (of a silence start, a silence end, a silence duration or the seconds
  of a progress time): the syntax errors and the errors of the hours and minutes are
  unreachable. It succeeds on every text whose lines have at most 308 bytes.
\<close>

theorem parse_fails_only_out_of_range:
  "(\<forall>err. snd (snd (parseSilenceOutput text)) = Some err \<longrightarrow> err \<in> range_errors) \<and>
   ((\<forall>l\<in>set (Split text newline). length l \<le> 308) \<longrightarrow>
      snd (snd (parseSilenceOutput text)) = None)"
proof (intro conjI allI impI)
  fix err assume a: "snd (snd (parseSilenceOutput text)) = Some err"
  show "err \<in> range_errors"
  proof (cases "events text")
    case (Inl e)
    then have "err = e" using a by (simp add: parse_events)
    moreover obtain l where "line_event l = Inl e"
      using line_events_error [of "Split text newline" e] Inl by (auto simp: events_def)
    ultimately show ?thesis using line_event_error by blast
  next
    case (Inr es)
    then show ?thesis using a by (simp add: parse_events finish_no_error)
  qed
next
  assume "\<forall>l\<in>set (Split text newline). length l \<le> 308"
  then have "\<forall>l\<in>set (Split text newline). \<exists>ev. line_event l = Inr ev"
    using line_event_short by blast
  from line_events_ok [OF this] obtain es where "events text = Inr es"
    by (auto simp: events_def)
  then show "snd (snd (parseSilenceOutput text)) = None"
    by (simp add: parse_events finish_no_error)
qed

theorem parse_fails_only_out_of_range_witness:
  "snd (snd (parseSilenceOutput (''silence_start: 1'' @ replicate 400 (CHR ''0'')))) =
     Some (ParseSilenceStart ErrRange) \<and>
   ParseSilenceStart ErrRange \<in> range_errors \<and>
   length ''silence_start: 0.000000'' \<le> 308 \<and> length ''time=00:00:05.00'' \<le> 308 \<and>
   snd (snd (parseSilenceOutput (''silence_start: 0.000000'' @ newline # ''time=00:00:05.00''))) = None"
proof -
  have b: "snd (snd (parseSilenceOutput (''silence_start: 1'' @ replicate 400 (CHR ''0'')))) =
     Some (ParseSilenceStart ErrRange)"
    by (simp only: parse_big snd_conv)
  have 1: "ParseSilenceStart ErrRange \<in> range_errors"
    using parse_fails_only_out_of_range [THEN conjunct1, rule_format, OF b] .
  have s: "\<forall>l\<in>set (Split (''silence_start: 0.000000'' @ newline # ''time=00:00:05.00'') newline). length l \<le> 308"
    unfolding split_scenario_C by simp
  have 2: "snd (snd (parseSilenceOutput (''silence_start: 0.000000'' @ newline # ''time=00:00:05.00''))) = None"
    using parse_fails_only_out_of_range [THEN conjunct2, THEN mp, OF s] .
  have 3: "length ''silence_start: 0.000000'' \<le> 308 \<and> length ''time=00:00:05.00'' \<le> 308" by simp
  show ?thesis using b 1 2 3 by blast
qed

end
